theory Spec2Isabelle
  imports Main
begin

section \<open>MoltBond: staking, escrow and reputation (contracts/MoltBond.sol)\<close>

text \<open>
  The contract is embedded function by function. A \<open>uint256\<close> is a natural number;
  Solidity 0.8 checks every \<open>+\<close>, \<open>-\<close> and \<open>*\<close> and aborts the call with
  \<open>Panic\<close> when the result leaves \<open>0 .. 2^256 - 1\<close>, which is written out in
  \<open>checked_add\<close>, \<open>checked_sub\<close> and \<open>checked_mul\<close>. A \<open>require\<close> that fails
  aborts the call with its message; a call that aborts changes nothing, so an operation
  returns \<open>error + State\<close> and \<open>Inl\<close> carries no state. \<open>msg.sender\<close> and
  \<open>block.timestamp\<close> are explicit arguments (\<open>sender\<close>, \<open>now\<close>). The source's
  \<open>_completeDeal\<close> and \<open>_min\<close> are \<open>completeDeal\<close> and \<open>min_uint\<close> here, and the
  field \<open>id\<close> of a deal is \<open>deal_id\<close>.

  The modifier \<open>nonReentrant\<close> (OpenZeppelin's \<open>ReentrancyGuard\<close>, not part of the
  repository) aborts a guarded call that starts while another guarded call is running.
  Operations are run here one after the other and the token never calls back, so the
  guard's flag is clear whenever a call starts and the modifier never aborts; it is left
  out of the definitions of \<open>stake\<close>, \<open>unstake\<close>, \<open>createDeal\<close> and
  \<open>completeDeal\<close>.
\<close>

subsection \<open>Types\<close>

type_synonym address = nat

datatype DealStatus = Active | Completed | Disputed | Cancelled | Expired

record Agent =
  name :: string
  staked :: nat
  dealsCompleted :: nat
  dealsFailed :: nat
  totalVolume :: nat
  registeredAt :: nat
  exists :: bool

record Deal =
  deal_id :: nat
  creator :: address
  counterparty :: address
  amount :: nat
  description :: string
  status :: DealStatus
  createdAt :: nat
  expiresAt :: nat
  creatorConfirmed :: bool
  counterpartyConfirmed :: bool

text \<open>The events of the contract; \<open>DealAccepted\<close> and \<open>DealCancelled\<close> are declared
  in the source and emitted nowhere.\<close>

datatype Event =
    AgentRegistered address string nat
  | Staked address nat nat
  | UnstakeRequested address nat
  | Unstaked address nat nat
  | DealCreated nat address address nat string
  | DealAccepted nat address
  | DealCompleted nat nat
  | DealDisputed nat address
  | DealCancelled nat
  | DealExpired nat
  | Slashed address nat nat

text \<open>
  The reasons a call aborts: the \<open>require\<close> messages of the source, under the names
  the spec gives them:
  "Already registered" \<open>AlreadyRegistered\<close>, "Invalid name length" \<open>InvalidName\<close>,
  "Not registered", "Creator not registered" and "Counterparty not registered"
  \<open>NotRegistered\<close>, "Below minimum stake" \<open>BelowMinimumStake\<close>, "Nothing staked"
  \<open>NothingStaked\<close>, "Insufficient stake" \<open>InsufficientStake\<close>, "No unstake requested"
  \<open>NoUnstakeRequested\<close>, "Cooldown not elapsed" \<open>CooldownNotElapsed\<close>,
  "Cannot deal with self" \<open>SelfDeal\<close>, "Amount must be positive" \<open>InvalidAmount\<close>,
  "Deal not found" \<open>DealNotFound\<close>, "Deal not active" \<open>DealNotActive\<close>,
  "Not a party to this deal" \<open>NotAParty\<close>, "Deal not expired" \<open>DealNotExpired\<close>.
  \<open>Panic\<close> is the arithmetic abort of checked \<open>uint256\<close> operations and
  \<open>TransferFailed\<close> an abort inside the token.
\<close>

datatype error =
    AlreadyRegistered | InvalidName | NotRegistered | BelowMinimumStake
  | NothingStaked | InsufficientStake | NoUnstakeRequested | CooldownNotElapsed
  | SelfDeal | InvalidAmount | DealNotFound | DealNotActive | NotAParty | DealNotExpired
  | Panic | TransferFailed

text \<open>
  A token call as the token sees it: who pays or is paid, how much, and the contract's
  agent table and deal array at the moment the call is issued. The list of calls records
  in which order an operation writes its storage and moves funds; no operation reads it.
\<close>

record Call =
  incoming :: bool
  party :: address
  call_value :: nat
  agents_seen :: "address \<Rightarrow> Agent"
  deals_seen :: "Deal list"

text \<open>
  The storage of the contract (\<open>agents\<close>, \<open>agentList\<close>, \<open>deals\<close>,
  \<open>unstakeRequestedAt\<close>), the event log, and the token ledger: \<open>held\<close> is the
  token's balance of the contract's own address, \<open>balanceOf\<close> the balance of every
  other account. The contract's address is never \<open>msg.sender\<close> of a call to itself,
  since the contract makes no call to itself.
\<close>

record State =
  agents :: "address \<Rightarrow> Agent"
  agentList :: "address list"
  deals :: "Deal list"
  unstakeRequestedAt :: "address \<Rightarrow> nat"
  events :: "Event list"
  balanceOf :: "address \<Rightarrow> nat"
  held :: nat
  calls :: "Call list"

subsection \<open>Constants and checked arithmetic\<close>

definition UINT_MAX :: nat where
  "UINT_MAX = 2 ^ 256 - 1"

definition MIN_STAKE :: nat where
  "MIN_STAKE = 1000000"

definition UNSTAKE_COOLDOWN :: nat where
  "UNSTAKE_COOLDOWN = 86400"

definition DEFAULT_EXPIRY :: nat where
  "DEFAULT_EXPIRY = 604800"

definition SLASH_PERCENT :: nat where
  "SLASH_PERCENT = 10"

definition checked_add :: "nat \<Rightarrow> nat \<Rightarrow> error + nat" where
  "checked_add a b = (if a + b \<le> UINT_MAX then Inr (a + b) else Inl Panic)"

definition checked_sub :: "nat \<Rightarrow> nat \<Rightarrow> error + nat" where
  "checked_sub a b = (if b \<le> a then Inr (a - b) else Inl Panic)"

definition checked_mul :: "nat \<Rightarrow> nat \<Rightarrow> error + nat" where
  "checked_mul a b = (if a * b \<le> UINT_MAX then Inr (a * b) else Inl Panic)"

text \<open>Sequencing: the first abort ends the call.\<close>

definition and_then :: "error + 'a \<Rightarrow> ('a \<Rightarrow> error + 'b) \<Rightarrow> error + 'b" where
  "and_then m f = (case m of Inl e \<Rightarrow> Inl e | Inr v \<Rightarrow> f v)"

definition min_uint :: "nat \<Rightarrow> nat \<Rightarrow> nat" where
  "min_uint a b = (if a < b then a else b)"

subsection \<open>Storage writes, events, token calls\<close>

definition set_agent :: "address \<Rightarrow> (Agent \<Rightarrow> Agent) \<Rightarrow> State \<Rightarrow> State" where
  "set_agent a f s = s\<lparr>agents := (agents s)(a := f (agents s a))\<rparr>"

definition set_deal :: "nat \<Rightarrow> (Deal \<Rightarrow> Deal) \<Rightarrow> State \<Rightarrow> State" where
  "set_deal i f s = s\<lparr>deals := (deals s)[i := f (deals s ! i)]\<rparr>"

definition emit :: "Event \<Rightarrow> State \<Rightarrow> State" where
  "emit e s = s\<lparr>events := events s @ [e]\<rparr>"

text \<open>
  Modelled from the spec: the token contract behind \<open>IERC20\<close> and \<open>SafeERC20\<close> is not
  part of the repository. It is the spec's Vault: \<open>lock(from, amount)\<close> moves
  \<open>amount\<close> from the payer to the contract and \<open>release(to, amount)\<close> moves it back;
  a transfer that the payer's balance does not cover aborts. The balances of a token
  add up to a total supply that fits in a \<open>uint256\<close>, so the additions inside the
  token are not checked here. The payer's approval is taken as given (the tests and the
  command-line client approve the maximum before the first call).
\<close>

definition safeTransferFrom :: "address \<Rightarrow> nat \<Rightarrow> State \<Rightarrow> error + State" where
  "safeTransferFrom payer v s =
     (if balanceOf s payer < v then Inl TransferFailed
      else Inr (s\<lparr>balanceOf := (balanceOf s)(payer := balanceOf s payer - v),
                  held := held s + v,
                  calls := calls s @ [\<lparr>incoming = True, party = payer, call_value = v,
                                        agents_seen = agents s, deals_seen = deals s\<rparr>]\<rparr>))"

definition safeTransfer :: "address \<Rightarrow> nat \<Rightarrow> State \<Rightarrow> error + State" where
  "safeTransfer payee v s =
     (if held s < v then Inl TransferFailed
      else Inr (s\<lparr>balanceOf := (balanceOf s)(payee := balanceOf s payee + v),
                  held := held s - v,
                  calls := calls s @ [\<lparr>incoming = False, party = payee, call_value = v,
                                        agents_seen = agents s, deals_seen = deals s\<rparr>]\<rparr>))"

subsection \<open>Agent management\<close>

definition registerAgent :: "nat \<Rightarrow> address \<Rightarrow> string \<Rightarrow> State \<Rightarrow> error + State" where
  "registerAgent now sender nm s =
     (if exists (agents s sender) then Inl AlreadyRegistered
      else if \<not> (length nm > 0 \<and> length nm \<le> 32) then Inl InvalidName
      else Inr (emit (AgentRegistered sender nm now)
             (s\<lparr>agents := (agents s)(sender :=
                    \<lparr>name = nm, staked = 0, dealsCompleted = 0, dealsFailed = 0,
                     totalVolume = 0, registeredAt = now, exists = True\<rparr>),
                agentList := agentList s @ [sender]\<rparr>)))"

definition stake :: "address \<Rightarrow> nat \<Rightarrow> State \<Rightarrow> error + State" where
  "stake sender v s =
     (if \<not> exists (agents s sender) then Inl NotRegistered
      else if \<not> v \<ge> MIN_STAKE then Inl BelowMinimumStake
      else
        and_then (safeTransferFrom sender v s) (\<lambda>s1.
        and_then (checked_add (staked (agents s1 sender)) v) (\<lambda>total.
        let s2 = set_agent sender (\<lambda>a. a\<lparr>staked := total\<rparr>) s1;
            s3 = s2\<lparr>unstakeRequestedAt := (unstakeRequestedAt s2)(sender := 0)\<rparr>
        in Inr (emit (Staked sender v (staked (agents s3 sender))) s3))))"

definition requestUnstake :: "nat \<Rightarrow> address \<Rightarrow> State \<Rightarrow> error + State" where
  "requestUnstake now sender s =
     (if \<not> exists (agents s sender) then Inl NotRegistered
      else if \<not> staked (agents s sender) > 0 then Inl NothingStaked
      else Inr (emit (UnstakeRequested sender now)
             (s\<lparr>unstakeRequestedAt := (unstakeRequestedAt s)(sender := now)\<rparr>)))"

definition unstake :: "nat \<Rightarrow> address \<Rightarrow> nat \<Rightarrow> State \<Rightarrow> error + State" where
  "unstake now sender v s =
     (if \<not> exists (agents s sender) then Inl NotRegistered
      else if \<not> staked (agents s sender) \<ge> v then Inl InsufficientStake
      else if \<not> unstakeRequestedAt s sender > 0 then Inl NoUnstakeRequested
      else
        and_then (checked_add (unstakeRequestedAt s sender) UNSTAKE_COOLDOWN) (\<lambda>ready.
        if \<not> now \<ge> ready then Inl CooldownNotElapsed
        else
          and_then (checked_sub (staked (agents s sender)) v) (\<lambda>rest.
          and_then (safeTransfer sender v (set_agent sender (\<lambda>a. a\<lparr>staked := rest\<rparr>) s)) (\<lambda>s1.
          let s2 = (if staked (agents s1 sender) = 0
                    then s1\<lparr>unstakeRequestedAt := (unstakeRequestedAt s1)(sender := 0)\<rparr>
                    else s1)
          in Inr (emit (Unstaked sender v (staked (agents s2 sender))) s2)))))"

subsection \<open>Escrow\<close>

definition createDeal ::
  "nat \<Rightarrow> address \<Rightarrow> address \<Rightarrow> nat \<Rightarrow> string \<Rightarrow> nat \<Rightarrow> State \<Rightarrow> error + (nat \<times> State)" where
  "createDeal now sender cp v descr expiryDuration s =
     (if \<not> exists (agents s sender) then Inl NotRegistered
      else if \<not> exists (agents s cp) then Inl NotRegistered
      else if \<not> sender \<noteq> cp then Inl SelfDeal
      else if \<not> v > 0 then Inl InvalidAmount
      else
        let expiry = (if expiryDuration > 0 then expiryDuration else DEFAULT_EXPIRY) in
        and_then (safeTransferFrom sender v s) (\<lambda>s1.
        let dealId = length (deals s1) in
        and_then (checked_add now expiry) (\<lambda>expires.
        let s2 = s1\<lparr>deals := deals s1 @
                   [\<lparr>deal_id = dealId, creator = sender, counterparty = cp, amount = v,
                     description = descr, status = Active, createdAt = now,
                     expiresAt = expires, creatorConfirmed = False,
                     counterpartyConfirmed = False\<rparr>]\<rparr>
        in Inr (dealId, emit (DealCreated dealId sender cp v descr) s2))))"

definition completeDeal :: "nat \<Rightarrow> nat \<Rightarrow> State \<Rightarrow> error + State" where
  "completeDeal now dealId s =
     (let s0 = set_deal dealId (\<lambda>d. d\<lparr>status := Completed\<rparr>) s;
          deal = deals s0 ! dealId in
      and_then (safeTransfer (counterparty deal) (amount deal) s0) (\<lambda>s1.
      and_then (checked_add (dealsCompleted (agents s1 (creator deal))) 1) (\<lambda>c1.
      let s2 = set_agent (creator deal) (\<lambda>a. a\<lparr>dealsCompleted := c1\<rparr>) s1 in
      and_then (checked_add (totalVolume (agents s2 (creator deal))) (amount deal)) (\<lambda>v1.
      let s3 = set_agent (creator deal) (\<lambda>a. a\<lparr>totalVolume := v1\<rparr>) s2 in
      and_then (checked_add (dealsCompleted (agents s3 (counterparty deal))) 1) (\<lambda>c2.
      let s4 = set_agent (counterparty deal) (\<lambda>a. a\<lparr>dealsCompleted := c2\<rparr>) s3 in
      and_then (checked_add (totalVolume (agents s4 (counterparty deal))) (amount deal)) (\<lambda>v2.
      let s5 = set_agent (counterparty deal) (\<lambda>a. a\<lparr>totalVolume := v2\<rparr>) s4 in
      Inr (emit (DealCompleted dealId now) s5)))))))"

definition confirmDeal :: "nat \<Rightarrow> address \<Rightarrow> nat \<Rightarrow> State \<Rightarrow> error + State" where
  "confirmDeal now sender dealId s =
     (if \<not> dealId < length (deals s) then Inl DealNotFound
      else if \<not> status (deals s ! dealId) = Active then Inl DealNotActive
      else if \<not> (sender = creator (deals s ! dealId) \<or> sender = counterparty (deals s ! dealId))
        then Inl NotAParty
      else
        let s1 = (if sender = creator (deals s ! dealId)
                  then set_deal dealId (\<lambda>d. d\<lparr>creatorConfirmed := True\<rparr>) s
                  else set_deal dealId (\<lambda>d. d\<lparr>counterpartyConfirmed := True\<rparr>) s)
        in if creatorConfirmed (deals s1 ! dealId) \<and> counterpartyConfirmed (deals s1 ! dealId)
           then completeDeal now dealId s1
           else Inr s1)"

definition disputeDeal :: "address \<Rightarrow> nat \<Rightarrow> State \<Rightarrow> error + State" where
  "disputeDeal sender dealId s =
     (if \<not> dealId < length (deals s) then Inl DealNotFound
      else if \<not> status (deals s ! dealId) = Active then Inl DealNotActive
      else if \<not> (sender = creator (deals s ! dealId) \<or> sender = counterparty (deals s ! dealId))
        then Inl NotAParty
      else
        let s0 = set_deal dealId (\<lambda>d. d\<lparr>status := Disputed\<rparr>) s;
            deal = deals s0 ! dealId in
        and_then (safeTransfer (creator deal) (amount deal) s0) (\<lambda>s1.
        let slashTarget = (if sender = creator deal then counterparty deal else creator deal) in
        and_then (checked_mul (staked (agents s1 slashTarget)) SLASH_PERCENT) (\<lambda>m.
        let slashAmount = m div 100 in
        and_then
          (if slashAmount > 0 then
             and_then (checked_sub (staked (agents s1 slashTarget)) slashAmount) (\<lambda>rest.
             and_then (safeTransfer sender slashAmount
                         (set_agent slashTarget (\<lambda>a. a\<lparr>staked := rest\<rparr>) s1)) (\<lambda>s2.
             Inr (emit (Slashed slashTarget slashAmount dealId) s2)))
           else Inr s1) (\<lambda>s3.
        and_then (checked_add (dealsFailed (agents s3 slashTarget)) 1) (\<lambda>failed.
        Inr (emit (DealDisputed dealId sender)
               (set_agent slashTarget (\<lambda>a. a\<lparr>dealsFailed := failed\<rparr>) s3)))))))"

definition cancelExpiredDeal :: "nat \<Rightarrow> address \<Rightarrow> nat \<Rightarrow> State \<Rightarrow> error + State" where
  "cancelExpiredDeal now sender dealId s =
     (if \<not> dealId < length (deals s) then Inl DealNotFound
      else if \<not> status (deals s ! dealId) = Active then Inl DealNotActive
      else if \<not> now \<ge> expiresAt (deals s ! dealId) then Inl DealNotExpired
      else
        let s0 = set_deal dealId (\<lambda>d. d\<lparr>status := Expired\<rparr>) s;
            deal = deals s0 ! dealId in
        and_then (safeTransfer (creator deal) (amount deal) s0) (\<lambda>s1.
        Inr (emit (DealExpired dealId) s1)))"

text \<open>\<open>cancelExpiredDeal\<close> never reads \<open>msg.sender\<close>: any account may call it.\<close>

subsection \<open>Views\<close>

definition reputation :: "Agent \<Rightarrow> error + nat" where
  "reputation a =
     (if \<not> exists a then Inr 0
      else
        and_then (checked_add (dealsCompleted a) (dealsFailed a)) (\<lambda>totalDeals.
        if totalDeals = 0 then
          and_then (checked_mul (staked a div 1000000) 10) (\<lambda>k. Inr (min_uint k 200))
        else
          and_then (checked_mul (dealsCompleted a) 500) (\<lambda>c.
          let completionScore = c div totalDeals in
          and_then (checked_mul (totalVolume a div 100000000) 30) (\<lambda>v.
          let volumeScore = min_uint v 300 in
          and_then (checked_mul (staked a div 1000000) 10) (\<lambda>k.
          let stakeScore = min_uint k 200 in
          and_then (checked_add completionScore volumeScore) (\<lambda>t.
          checked_add t stakeScore))))))"

definition getReputation :: "address \<Rightarrow> State \<Rightarrow> error + nat" where
  "getReputation agent s = reputation (agents s agent)"

text \<open>The storage after the constructor: every mapping entry is the zero value, both
  arrays are empty, and the contract holds no token.\<close>

definition no_agent :: Agent where
  "no_agent = \<lparr>name = [], staked = 0, dealsCompleted = 0, dealsFailed = 0,
                totalVolume = 0, registeredAt = 0, exists = False\<rparr>"

definition init :: "(address \<Rightarrow> nat) \<Rightarrow> State" where
  "init bal = \<lparr>agents = (\<lambda>_. no_agent), agentList = [], deals = [],
               unstakeRequestedAt = (\<lambda>_. 0), events = [], balanceOf = bal, held = 0,
               calls = []\<rparr>"

definition getAgentCount :: "State \<Rightarrow> nat" where
  "getAgentCount s = length (agentList s)"

definition getDealCount :: "State \<Rightarrow> nat" where
  "getDealCount s = length (deals s)"


subsection \<open>Transactions\<close>

text \<open>
  One externally callable operation with its arguments. A transaction runs one operation
  at a block timestamp: it commits the new state, or it aborts and the state stays as it
  was. A history is a list of transactions.
\<close>

datatype Op =
    RegisterAgent address string
  | Stake address nat
  | RequestUnstake address
  | Unstake address nat
  | CreateDeal address address nat string nat
  | ConfirmDeal address nat
  | DisputeDeal address nat
  | CancelExpiredDeal address nat

fun exec :: "nat \<Rightarrow> Op \<Rightarrow> State \<Rightarrow> error + State" where
  "exec now (RegisterAgent sender nm) s = registerAgent now sender nm s"
| "exec now (Stake sender v) s = stake sender v s"
| "exec now (RequestUnstake sender) s = requestUnstake now sender s"
| "exec now (Unstake sender v) s = unstake now sender v s"
| "exec now (CreateDeal sender cp v descr dur) s =
     and_then (createDeal now sender cp v descr dur s) (\<lambda>r. Inr (snd r))"
| "exec now (ConfirmDeal sender dealId) s = confirmDeal now sender dealId s"
| "exec now (DisputeDeal sender dealId) s = disputeDeal sender dealId s"
| "exec now (CancelExpiredDeal sender dealId) s = cancelExpiredDeal now sender dealId s"

definition step :: "nat \<Rightarrow> Op \<Rightarrow> State \<Rightarrow> State" where
  "step now op s = (case exec now op s of Inl e \<Rightarrow> s | Inr s' \<Rightarrow> s')"

fun run :: "(nat \<times> Op) list \<Rightarrow> State \<Rightarrow> State" where
  "run [] s = s"
| "run (tx # txs) s = run txs (step (fst tx) (snd tx) s)"

subsection \<open>Invariants\<close>

definition total_staked :: "State \<Rightarrow> nat" where
  "total_staked s = (\<Sum>a\<leftarrow>agentList s. staked (agents s a))"

definition escrowed :: "Deal \<Rightarrow> nat" where
  "escrowed d = (if status d = Active then amount d else 0)"

definition total_escrow :: "State \<Rightarrow> nat" where
  "total_escrow s = (\<Sum>d\<leftarrow>deals s. escrowed d)"

definition conserved :: "State \<Rightarrow> bool" where
  "conserved s \<longleftrightarrow> held s = total_staked s + total_escrow s"

definition registry_ok :: "State \<Rightarrow> bool" where
  "registry_ok s \<longleftrightarrow>
     distinct (agentList s) \<and> (\<forall>a. exists (agents s a) \<longleftrightarrow> a \<in> set (agentList s))"

definition deals_ok :: "State \<Rightarrow> bool" where
  "deals_ok s \<longleftrightarrow>
     (\<forall>d \<in> set (deals s). exists (agents s (creator d)) \<and> exists (agents s (counterparty d)) \<and>
        creator d \<noteq> counterparty d)"

definition active_count :: "State \<Rightarrow> nat" where
  "active_count s = length (filter (\<lambda>d. status d = Active) (deals s))"

definition counters_ok :: "State \<Rightarrow> bool" where
  "counters_ok s \<longleftrightarrow>
     (\<forall>a. dealsCompleted (agents s a) + dealsFailed (agents s a) + active_count s
            \<le> length (deals s))"

definition inv :: "State \<Rightarrow> bool" where
  "inv s \<longleftrightarrow> conserved s \<and> registry_ok s \<and> deals_ok s \<and> counters_ok s"

subsection \<open>Reading a dispute and the token calls of an operation\<close>

text \<open>The two local values of \<open>disputeDeal\<close>: the party that did not call, and the
  slash computed from that party's stake at the time of the call.\<close>

definition slashTarget :: "address \<Rightarrow> Deal \<Rightarrow> address" where
  "slashTarget sender d = (if sender = creator d then counterparty d else creator d)"

definition slashAmount :: "State \<Rightarrow> address \<Rightarrow> nat" where
  "slashAmount s t = staked (agents s t) * SLASH_PERCENT div 100"

text \<open>The token calls issued between a state and a later one, and the payments they
  make (payee or payer, and amount).\<close>

definition issued :: "State \<Rightarrow> State \<Rightarrow> Call list" where
  "issued s s' = drop (length (calls s)) (calls s')"

definition transfers :: "State \<Rightarrow> State \<Rightarrow> (address \<times> nat) list" where
  "transfers s s' = map (\<lambda>c. (party c, call_value c)) (issued s s')"

subsection \<open>The preconditions of the spec\<close>

text \<open>
  The fourteen named conditions of the spec, and for each operation which of them its
  preconditions (spec sections 4 and 7) make fail in a given state at a given time:
  \<open>violates now op s e\<close> says that the precondition reported as \<open>e\<close> does not hold.
  This follows the spec's words, not the code; a name is a byte string, so "exceeds 32
  characters" implies "exceeds 32 bytes", which is what is written here.
\<close>

definition named :: "error \<Rightarrow> bool" where
  "named e \<longleftrightarrow> e \<in> {NotRegistered, AlreadyRegistered, InvalidName, BelowMinimumStake,
     InsufficientStake, NothingStaked, NoUnstakeRequested, CooldownNotElapsed, DealNotFound,
     DealNotActive, NotAParty, SelfDeal, InvalidAmount, DealNotExpired}"

fun violates :: "nat \<Rightarrow> Op \<Rightarrow> State \<Rightarrow> error \<Rightarrow> bool" where
  "violates now (RegisterAgent a nm) s e \<longleftrightarrow>
     e = AlreadyRegistered \<and> exists (agents s a) \<or>
     e = InvalidName \<and> (length nm = 0 \<or> 32 < length nm)"
| "violates now (Stake a v) s e \<longleftrightarrow>
     e = NotRegistered \<and> \<not> exists (agents s a) \<or>
     e = BelowMinimumStake \<and> v < MIN_STAKE"
| "violates now (RequestUnstake a) s e \<longleftrightarrow>
     e = NotRegistered \<and> \<not> exists (agents s a) \<or>
     e = NothingStaked \<and> staked (agents s a) = 0"
| "violates now (Unstake a v) s e \<longleftrightarrow>
     e = NotRegistered \<and> \<not> exists (agents s a) \<or>
     e = InsufficientStake \<and> staked (agents s a) < v \<or>
     e = NoUnstakeRequested \<and> unstakeRequestedAt s a = 0 \<or>
     e = CooldownNotElapsed \<and> now < unstakeRequestedAt s a + UNSTAKE_COOLDOWN"
| "violates now (CreateDeal a cp v descr dur) s e \<longleftrightarrow>
     e = NotRegistered \<and> (\<not> exists (agents s a) \<or> \<not> exists (agents s cp)) \<or>
     e = SelfDeal \<and> a = cp \<or>
     e = InvalidAmount \<and> v = 0"
| "violates now (ConfirmDeal a i) s e \<longleftrightarrow>
     e = DealNotFound \<and> length (deals s) \<le> i \<or>
     e = DealNotActive \<and> i < length (deals s) \<and> status (deals s ! i) \<noteq> Active \<or>
     e = NotAParty \<and> i < length (deals s) \<and> a \<noteq> creator (deals s ! i) \<and>
       a \<noteq> counterparty (deals s ! i)"
| "violates now (DisputeDeal a i) s e \<longleftrightarrow>
     e = DealNotFound \<and> length (deals s) \<le> i \<or>
     e = DealNotActive \<and> i < length (deals s) \<and> status (deals s ! i) \<noteq> Active \<or>
     e = NotAParty \<and> i < length (deals s) \<and> a \<noteq> creator (deals s ! i) \<and>
       a \<noteq> counterparty (deals s ! i)"
| "violates now (CancelExpiredDeal a i) s e \<longleftrightarrow>
     e = DealNotFound \<and> length (deals s) \<le> i \<or>
     e = DealNotActive \<and> i < length (deals s) \<and> status (deals s ! i) \<noteq> Active \<or>
     e = DealNotExpired \<and> i < length (deals s) \<and> now < expiresAt (deals s ! i)"

text \<open>
  \<open>unstake\<close> evaluates \<open>unstakeRequestedAt[msg.sender] + UNSTAKE_COOLDOWN\<close> in checked
  arithmetic. A request time is the block timestamp of an earlier \<open>requestUnstake\<close>, a
  count of seconds; \<open>timely\<close> says that it lies at least one cooldown below \<open>2^256\<close>.
\<close>

fun timely :: "Op \<Rightarrow> State \<Rightarrow> bool" where
  "timely (Unstake a v) s \<longleftrightarrow> unstakeRequestedAt s a + UNSTAKE_COOLDOWN \<le> UINT_MAX"
| "timely _ s \<longleftrightarrow> True"


subsection \<open>Concrete ledgers and records used in examples\<close>

text \<open>The ledger of the test suite: accounts 1 (Alice), 2 (Bob) and 3 (Charlie) hold
  10000 units each and nobody else holds any.\<close>

definition funded :: "address \<Rightarrow> nat" where
  "funded a = (if a = 1 \<or> a = 2 \<or> a = 3 then 10000000000 else 0)"

text \<open>Scenario 3 of the spec: Alice (account 1) and Bob (account 2) register and stake
  100 units each, Alice opens a 50-unit deal with Bob and then disputes it.\<close>

definition dispute_history :: "(nat \<times> Op) list" where
  "dispute_history =
     [(1, RegisterAgent 1 ''Alice''), (2, RegisterAgent 2 ''Bob''),
      (3, Stake 1 100000000), (4, Stake 2 100000000),
      (5, CreateDeal 1 2 50000000 ''Task'' 0), (6, DisputeDeal 1 0)]"

text \<open>The first five transactions of scenario 3: the deal is open and nobody has
  confirmed or disputed it.\<close>

definition open_deal_history :: "(nat \<times> Op) list" where
  "open_deal_history =
     [(1, RegisterAgent 1 ''Alice''), (2, RegisterAgent 2 ''Bob''),
      (3, Stake 1 100000000), (4, Stake 2 100000000),
      (5, CreateDeal 1 2 50000000 ''Task'' 0)]"

text \<open>Calls that arrive after the dispute: each of them aborts with "Deal not active".\<close>

definition late_calls :: "(nat \<times> Op) list" where
  "late_calls = [(7, ConfirmDeal 2 0), (700000, CancelExpiredDeal 3 0), (700001, DisputeDeal 2 0)]"

text \<open>Scenario 2 of the spec, with stakes of 100 units: Alice confirms the open deal
  (\<open>half_confirmed_history\<close>), then Bob does (\<open>completed_history\<close>).\<close>

definition half_confirmed_history :: "(nat \<times> Op) list" where
  "half_confirmed_history = open_deal_history @ [(7, ConfirmDeal 1 0)]"

definition completed_history :: "(nat \<times> Op) list" where
  "completed_history = half_confirmed_history @ [(8, ConfirmDeal 2 0)]"

text \<open>Bob registers and never stakes; Alice opens a deal with him.\<close>

definition unstaked_history :: "(nat \<times> Op) list" where
  "unstaked_history =
     [(1, RegisterAgent 1 ''Alice''), (2, RegisterAgent 2 ''Bob''),
      (3, CreateDeal 1 2 50000000 ''Task'' 0)]"

text \<open>Bob stakes 1.000005 units and withdraws one unit after the cooldown, which leaves
  5 base units staked; then Alice opens a deal with him.\<close>

definition dust_history :: "(nat \<times> Op) list" where
  "dust_history =
     [(1, RegisterAgent 1 ''Alice''), (2, RegisterAgent 2 ''Bob''),
      (3, Stake 2 1000005), (4, RequestUnstake 2), (90000, Unstake 2 1000000),
      (90001, CreateDeal 1 2 50000000 ''Task'' 0)]"

text \<open>A token with a large supply, \<open>2^255 + 10^10\<close> base units in all: Bob holds
  \<open>2^255\<close> of them and stakes them, and Alice opens a deal with him.\<close>

definition rich :: "address \<Rightarrow> nat" where
  "rich a = (if a = 1 then 10000000000 else if a = 2 then 2 ^ 255 else 0)"

definition whale_history :: "(nat \<times> Op) list" where
  "whale_history =
     [(1, RegisterAgent 1 ''Alice''), (2, RegisterAgent 2 ''Bob''),
      (3, Stake 2 (2 ^ 255)), (4, CreateDeal 1 2 50000000 ''Task'' 0)]"

text \<open>Scenario 5 of the spec: Alice stakes 100 units and requests to unstake at time
  4.\<close>

definition cooldown_history :: "(nat \<times> Op) list" where
  "cooldown_history =
     [(1, RegisterAgent 1 ''Alice''), (3, Stake 1 100000000), (4, RequestUnstake 1)]"


text \<open>Scenario 1 of the spec: Alice registers and stakes 10 units.\<close>

definition staked_history :: "(nat \<times> Op) list" where
  "staked_history = [(1, RegisterAgent 1 ''Alice''), (3, Stake 1 10000000)]"

text \<open>Alice requests to unstake in a block whose timestamp is \<open>2^256 - 1\<close>.\<close>

definition late_request_history :: "(nat \<times> Op) list" where
  "late_request_history =
     [(1, RegisterAgent 1 ''Alice''), (3, Stake 1 100000000), (2 ^ 256 - 1, RequestUnstake 1)]"

text \<open>
  A long history: Alice holds \<open>2^250\<close> base units of the token and nobody else any.
  Alice and Bob register, and then, round after round (all in blocks of timestamp 5),
  Alice opens a deal of one base unit with Bob and both confirm it. \<open>veteran_history\<close> has \<open>floor ((2^256 - 1) / 500) + 1\<close>
  rounds; \<open>seasoned n\<close> describes the state after \<open>n\<close> rounds.
\<close>

definition patron_ledger :: "address \<Rightarrow> nat" where
  "patron_ledger a = (if a = 1 then 2 ^ 250 else 0)"

definition deal_round :: "nat \<Rightarrow> (nat \<times> Op) list" where
  "deal_round i = [(5, CreateDeal 1 2 1 ''Task'' 0), (5, ConfirmDeal 1 i), (5, ConfirmDeal 2 i)]"

fun deal_rounds :: "nat \<Rightarrow> (nat \<times> Op) list" where
  "deal_rounds 0 = []"
| "deal_rounds (Suc n) = deal_rounds n @ deal_round n"

definition veteran_history :: "(nat \<times> Op) list" where
  "veteran_history =
     [(1, RegisterAgent 1 ''Alice''), (2, RegisterAgent 2 ''Bob'')]
       @ deal_rounds ((2 ^ 256 - 1) div 500 + 1)"

definition seasoned :: "nat \<Rightarrow> State \<Rightarrow> bool" where
  "seasoned n s \<longleftrightarrow>
     length (deals s) = n \<and> exists (agents s 1) \<and> exists (agents s 2) \<and>
     dealsCompleted (agents s 1) = n \<and> dealsFailed (agents s 1) = 0 \<and>
     dealsCompleted (agents s 2) = n \<and>
     totalVolume (agents s 1) = n \<and> totalVolume (agents s 2) = n \<and>
     balanceOf s 1 + n = 2 ^ 250 \<and> held s = 0"

section \<open>Properties\<close>

subsection \<open>Checked arithmetic\<close>

lemma and_then_Inr [simp]: "and_then (Inr v) f = f v"
  by (simp add: and_then_def)

lemma and_then_Inl [simp]: "and_then (Inl e) f = Inl e"
  by (simp add: and_then_def)

lemma and_then_eq_Inr:
  "and_then m f = Inr y \<longleftrightarrow> (\<exists>v. m = Inr v \<and> f v = Inr y)"
  by (cases m) simp_all

text \<open>The definitions a concrete call unfolds to.\<close>

lemmas op_defs = registerAgent_def stake_def requestUnstake_def unstake_def createDeal_def
  confirmDeal_def completeDeal_def disputeDeal_def cancelExpiredDeal_def
  safeTransfer_def safeTransferFrom_def checked_add_def checked_sub_def checked_mul_def
  set_agent_def set_deal_def emit_def step_def Let_def
  MIN_STAKE_def UINT_MAX_def DEFAULT_EXPIRY_def SLASH_PERCENT_def UNSTAKE_COOLDOWN_def

lemma div_le_factor:
  fixes a b k :: nat
  assumes "0 < b" and "a \<le> b * k"
  shows "a div b \<le> k"
proof -
  have "a div b \<le> (b * k) div b"
    using assms(2) by (rule div_le_mono)
  also have "\<dots> = k"
    using assms(1) by simp
  finally show ?thesis .
qed

subsection \<open>Sums over the agent list and the deal array\<close>

lemma sum_list_fun_upd_notin:
  "a \<notin> set xs \<Longrightarrow> (\<Sum>x\<leftarrow>xs. (g(a := v)) x) = (\<Sum>x\<leftarrow>xs. (g x :: nat))"
  by (induction xs) auto

lemma sum_list_fun_upd_in:
  "distinct xs \<Longrightarrow> a \<in> set xs \<Longrightarrow>
   (\<Sum>x\<leftarrow>xs. (g(a := v)) x) + g a = (\<Sum>x\<leftarrow>xs. (g x :: nat)) + v"
  by (induction xs) (auto simp: sum_list_fun_upd_notin)

lemma sum_list_list_update:
  "i < length xs \<Longrightarrow>
   (\<Sum>x\<leftarrow>xs[i := y]. (h x :: nat)) + h (xs ! i) = (\<Sum>x\<leftarrow>xs. h x) + h y"
  by (induction xs arbitrary: i) (auto simp: nth_Cons split: nat.splits)

subsection \<open>What a successful call did\<close>

text \<open>For each operation: the checks a successful call passed and the storage, ledger,
  events and token calls it leaves behind.\<close>

lemma registerAgent_Inr:
  assumes "registerAgent now sender nm s = Inr s'"
  shows "s' = s\<lparr>agents := (agents s)(sender :=
                    \<lparr>name = nm, staked = 0, dealsCompleted = 0, dealsFailed = 0,
                     totalVolume = 0, registeredAt = now, exists = True\<rparr>),
               agentList := agentList s @ [sender],
               events := events s @ [AgentRegistered sender nm now]\<rparr>"
    and "\<not> exists (agents s sender)"
  using assms by (auto simp: registerAgent_def emit_def split: if_splits)

lemma requestUnstake_Inr:
  assumes "requestUnstake now sender s = Inr s'"
  shows "s' = s\<lparr>unstakeRequestedAt := (unstakeRequestedAt s)(sender := now),
               events := events s @ [UnstakeRequested sender now]\<rparr>"
  using assms by (auto simp: requestUnstake_def emit_def split: if_splits)

lemma unstake_Inr:
  assumes "unstake now sender v s = Inr s'"
  shows "agents s' = (agents s)(sender := (agents s sender)\<lparr>staked := staked (agents s sender) - v\<rparr>)"
    and "agentList s' = agentList s" and "deals s' = deals s"
    and "held s' = held s - v" and "v \<le> held s"
    and "exists (agents s sender)" and "v \<le> staked (agents s sender)"
    and "balanceOf s' = (balanceOf s)(sender := balanceOf s sender + v)"
    and "calls s' = calls s @ [\<lparr>incoming = False, party = sender, call_value = v,
            agents_seen = agents s', deals_seen = deals s'\<rparr>]"
  using assms
  by (auto simp: unstake_def safeTransfer_def checked_add_def checked_sub_def set_agent_def
      emit_def Let_def and_then_eq_Inr split: if_splits)

lemma createDeal_Inr:
  assumes "createDeal now sender cp v descr dur s = Inr (i, s')"
  shows "i = length (deals s)"
    and "\<exists>e. deals s' = deals s @ [\<lparr>deal_id = length (deals s), creator = sender, counterparty = cp,
             amount = v, description = descr, status = Active, createdAt = now,
             expiresAt = e, creatorConfirmed = False, counterpartyConfirmed = False\<rparr>]
           \<and> e = now + (if dur > 0 then dur else DEFAULT_EXPIRY)"
    and "agents s' = agents s" and "agentList s' = agentList s"
    and "held s' = held s + v"
    and "exists (agents s sender)" and "exists (agents s cp)" and "sender \<noteq> cp" and "0 < v"
    and "unstakeRequestedAt s' = unstakeRequestedAt s"
  using assms
  by (auto simp: createDeal_def safeTransferFrom_def checked_add_def emit_def Let_def
      and_then_eq_Inr split: if_splits)

lemma cancelExpiredDeal_Inr:
  assumes "cancelExpiredDeal now sender i s = Inr s'"
  shows "s' = s\<lparr>deals := (deals s)[i := (deals s ! i)\<lparr>status := Expired\<rparr>],
               balanceOf := (balanceOf s)(creator (deals s ! i) :=
                   balanceOf s (creator (deals s ! i)) + amount (deals s ! i)),
               held := held s - amount (deals s ! i),
               calls := calls s @ [\<lparr>incoming = False, party = creator (deals s ! i),
                    call_value = amount (deals s ! i), agents_seen = agents s,
                    deals_seen = (deals s)[i := (deals s ! i)\<lparr>status := Expired\<rparr>]\<rparr>],
               events := events s @ [DealExpired i]\<rparr>"
    and "i < length (deals s)" and "status (deals s ! i) = Active"
    and "expiresAt (deals s ! i) \<le> now" and "amount (deals s ! i) \<le> held s"
  using assms
  by (auto simp: cancelExpiredDeal_def safeTransfer_def set_deal_def emit_def Let_def
      and_then_eq_Inr split: if_splits)

lemma completeDeal_Inr:
  assumes "completeDeal now i s = Inr s'" and "i < length (deals s)"
    and "creator (deals s ! i) \<noteq> counterparty (deals s ! i)"
  defines "d \<equiv> deals s ! i"
  shows "deals s' = (deals s)[i := d\<lparr>status := Completed\<rparr>]"
    and "agents s' = (agents s)
           (creator d := (agents s (creator d))\<lparr>dealsCompleted := dealsCompleted (agents s (creator d)) + 1,
                 totalVolume := totalVolume (agents s (creator d)) + amount d\<rparr>,
            counterparty d := (agents s (counterparty d))\<lparr>dealsCompleted := dealsCompleted (agents s (counterparty d)) + 1,
                 totalVolume := totalVolume (agents s (counterparty d)) + amount d\<rparr>)"
    and "agentList s' = agentList s"
    and "held s' = held s - amount d" and "amount d \<le> held s"
    and "balanceOf s' = (balanceOf s)(counterparty d := balanceOf s (counterparty d) + amount d)"
    and "unstakeRequestedAt s' = unstakeRequestedAt s"
    and "events s' = events s @ [DealCompleted i now]"
    and "calls s' = calls s @ [\<lparr>incoming = False, party = counterparty d, call_value = amount d,
            agents_seen = agents s, deals_seen = (deals s)[i := d\<lparr>status := Completed\<rparr>]\<rparr>]"
  using assms
  by (auto simp: completeDeal_def safeTransfer_def checked_add_def set_agent_def set_deal_def
      emit_def Let_def and_then_eq_Inr split: if_splits)

lemma completeDeal_deals:
  assumes "completeDeal now i s = Inr s'"
  shows "deals s' = (deals s)[i := (deals s ! i)\<lparr>status := Completed\<rparr>]"
  using assms
  by (auto simp: completeDeal_def safeTransfer_def checked_add_def set_agent_def set_deal_def
      emit_def Let_def and_then_eq_Inr split: if_splits)

lemma stake_Inr:
  assumes "stake sender v s = Inr s'"
  shows "s' = s\<lparr>balanceOf := (balanceOf s)(sender := balanceOf s sender - v),
               held := held s + v,
               calls := calls s @ [\<lparr>incoming = True, party = sender, call_value = v,
                                     agents_seen = agents s, deals_seen = deals s\<rparr>],
               agents := (agents s)(sender := (agents s sender)\<lparr>staked := staked (agents s sender) + v\<rparr>),
               unstakeRequestedAt := (unstakeRequestedAt s)(sender := 0),
               events := events s @ [Staked sender v (staked (agents s sender) + v)]\<rparr>"
    and "exists (agents s sender)" and "MIN_STAKE \<le> v" and "v \<le> balanceOf s sender"
    and "staked (agents s sender) + v \<le> UINT_MAX"
  using assms
  by (auto simp: stake_def safeTransferFrom_def checked_add_def set_agent_def emit_def Let_def
      split: if_splits)

lemma disputeDeal_Inr:
  assumes "disputeDeal sender i s = Inr s'"
  defines "d \<equiv> deals s ! i"
  defines "target \<equiv> (if sender = creator d then counterparty d else creator d)"
  defines "slash \<equiv> staked (agents s target) * SLASH_PERCENT div 100"
  shows "i < length (deals s)" "status d = Active" "sender = creator d \<or> sender = counterparty d"
    "amount d + slash \<le> held s" 
    "staked (agents s target) * SLASH_PERCENT \<le> UINT_MAX"
    "dealsFailed (agents s target) + 1 \<le> UINT_MAX"
    "deals s' = (deals s)[i := d\<lparr>status := Disputed\<rparr>]"
    "agents s' = (agents s)(target := (agents s target)\<lparr>staked := staked (agents s target) - slash,
         dealsFailed := dealsFailed (agents s target) + 1\<rparr>)"
    "held s' = held s - amount d - slash"
    "agentList s' = agentList s"
    "unstakeRequestedAt s' = unstakeRequestedAt s"
  using assms
  by (auto simp: disputeDeal_def safeTransfer_def checked_add_def checked_mul_def checked_sub_def set_agent_def set_deal_def emit_def Let_def and_then_eq_Inr
      split: if_splits)

lemma confirmDeal_Inr:
  assumes "confirmDeal now sender i s = Inr s'"
  defines "d \<equiv> deals s ! i"
  defines "d1 \<equiv> (if sender = creator d then d\<lparr>creatorConfirmed := True\<rparr>
                  else d\<lparr>counterpartyConfirmed := True\<rparr>)"
  shows "i < length (deals s)" and "status d = Active"
    and "sender = creator d \<or> sender = counterparty d"
    and "if creatorConfirmed d1 \<and> counterpartyConfirmed d1
         then completeDeal now i (s\<lparr>deals := (deals s)[i := d1]\<rparr>) = Inr s'
         else s' = s\<lparr>deals := (deals s)[i := d1]\<rparr>"
  using assms
  by (auto simp: confirmDeal_def set_deal_def Let_def split: if_splits)


subsection \<open>The invariant is kept by every operation\<close>

lemma sum_list_map_cong:
  assumes "\<And>x. x \<in> set xs \<Longrightarrow> f x = g x"
  shows "(\<Sum>x\<leftarrow>xs. f x) = (\<Sum>x\<leftarrow>xs. (g x :: nat))"
  using assms by (induction xs) simp_all

lemma total_staked_update:
  assumes "distinct (agentList s)" and "a \<in> set (agentList s)"
    and "agents s' = (agents s)(a := A)" and "agentList s' = agentList s"
  shows "total_staked s' + staked (agents s a) = total_staked s + staked A"
proof -
  have "total_staked s' = (\<Sum>x\<leftarrow>agentList s. ((\<lambda>x. staked (agents s x))(a := staked A)) x)"
    unfolding total_staked_def assms(4)
    by (rule sum_list_map_cong) (simp add: assms(3))
  also have "\<dots> + staked (agents s a) = (\<Sum>x\<leftarrow>agentList s. staked (agents s x)) + staked A"
    using assms(1,2) by (rule sum_list_fun_upd_in)
  finally show ?thesis
    by (simp add: total_staked_def)
qed

lemma total_staked_other:
  assumes "a \<notin> set (agentList s)" and "agents s' = (agents s)(a := A)"
  shows "(\<Sum>x\<leftarrow>agentList s. staked (agents s' x)) = total_staked s"
  unfolding total_staked_def
  by (rule sum_list_map_cong) (use assms in auto)

lemma total_staked_same:
  assumes "\<And>a. staked (agents s' a) = staked (agents s a)" and "agentList s' = agentList s"
  shows "total_staked s' = total_staked s"
  using assms by (simp add: total_staked_def)

lemma total_escrow_update:
  assumes "i < length (deals s)" and "deals s' = (deals s)[i := d']"
  shows "total_escrow s' + escrowed (deals s ! i) = total_escrow s + escrowed d'"
  using assms sum_list_list_update [of i "deals s" escrowed d']
  by (simp add: total_escrow_def)

lemma length_filter_update:
  assumes "i < length xs"
  shows "length (filter P (xs[i := y])) + (if P (xs ! i) then 1 else 0)
       = length (filter P xs) + (if P y then 1 else 0)"
  using assms
proof (induction xs arbitrary: i)
  case Nil
  then show ?case by simp
next
  case (Cons x xs)
  show ?case
  proof (cases i)
    case 0
    then show ?thesis by simp
  next
    case (Suc j)
    then have "j < length xs"
      using Cons.prems by simp
    from Cons.IH [OF this] show ?thesis
      by (simp add: Suc)
  qed
qed

lemma active_count_update:
  assumes "i < length (deals s)" and "deals s' = (deals s)[i := d']"
  shows "active_count s' + (if status (deals s ! i) = Active then 1 else 0)
       = active_count s + (if status d' = Active then 1 else 0)"
  using assms length_filter_update [of i "deals s" "\<lambda>d. status d = Active" d']
  by (simp add: active_count_def)

lemma in_set_updateE:
  assumes "x \<in> set (xs[i := y])"
  shows "x = y \<or> x \<in> set xs"
  using assms set_update_subset_insert [of xs i y] by auto

lemma inv_init: "inv (init bal)"
  by (simp add: inv_def conserved_def registry_ok_def deals_ok_def counters_ok_def
      total_staked_def total_escrow_def active_count_def init_def no_agent_def)

lemma inv_registerAgent:
  assumes "inv s" and "registerAgent now sender nm s = Inr s'"
  shows "inv s'"
proof -
  note r = registerAgent_Inr [OF assms(2)]
  have notin: "sender \<notin> set (agentList s)"
    using assms(1) r(2) by (simp add: inv_def registry_ok_def)
  have "total_staked s' = total_staked s"
    using total_staked_other [OF notin, of s'] by (simp add: r(1) total_staked_def)
  moreover have "total_escrow s' = total_escrow s" "active_count s' = active_count s"
    by (simp_all add: r(1) total_escrow_def active_count_def)
  ultimately show ?thesis
    using assms(1) notin
    by (auto simp: inv_def conserved_def registry_ok_def deals_ok_def counters_ok_def r(1))
qed

lemma registered_in_list: "inv s \<Longrightarrow> exists (agents s a) \<Longrightarrow> a \<in> set (agentList s)"
  by (simp add: inv_def registry_ok_def)

lemma inv_distinct: "inv s \<Longrightarrow> distinct (agentList s)"
  by (simp add: inv_def registry_ok_def)

lemma inv_deal:
  assumes "inv s" and "i < length (deals s)"
  shows "exists (agents s (creator (deals s ! i)))"
    and "exists (agents s (counterparty (deals s ! i)))"
    and "creator (deals s ! i) \<noteq> counterparty (deals s ! i)"
  using assms by (auto simp: inv_def deals_ok_def)

text \<open>Preservation under a write that keeps the registry and every deal's parties.\<close>

lemma inv_frame:
  assumes "inv s"
    and "agentList s' = agentList s"
    and "\<And>a. exists (agents s' a) = exists (agents s a)"
    and "\<And>d. d \<in> set (deals s') \<Longrightarrow>
           \<exists>d0 \<in> set (deals s). creator d = creator d0 \<and> counterparty d = counterparty d0"
    and "held s' = total_staked s' + total_escrow s'"
    and "\<And>a. dealsCompleted (agents s' a) + dealsFailed (agents s' a) + active_count s'
           \<le> length (deals s')"
  shows "inv s'"
proof -
  have "registry_ok s'"
    using assms(1,2,3) by (simp add: inv_def registry_ok_def)
  moreover have "deals_ok s'"
    unfolding deals_ok_def
  proof (intro ballI)
    fix d assume "d \<in> set (deals s')"
    from assms(4) [OF this] obtain d0
      where d0: "d0 \<in> set (deals s)" "creator d = creator d0" "counterparty d = counterparty d0"
      by blast
    from assms(1) d0(1)
    have "exists (agents s (creator d0)) \<and> exists (agents s (counterparty d0)) \<and>
        creator d0 \<noteq> counterparty d0"
      unfolding inv_def deals_ok_def by blast
    then show "exists (agents s' (creator d)) \<and> exists (agents s' (counterparty d)) \<and>
        creator d \<noteq> counterparty d"
      by (simp add: assms(3) d0(2,3))
  qed
  moreover have "conserved s'"
    using assms(5) by (simp add: conserved_def)
  moreover have "counters_ok s'"
    using assms(6) by (simp add: counters_ok_def)
  ultimately show ?thesis
    by (simp add: inv_def)
qed

lemma same_parties_update:
  assumes "i < length ds" and "creator d' = creator (ds ! i)"
    and "counterparty d' = counterparty (ds ! i)" and "d \<in> set (ds[i := d'])"
  shows "\<exists>d0 \<in> set ds. creator d = creator d0 \<and> counterparty d = counterparty d0"
proof -
  from in_set_updateE [OF assms(4)] show ?thesis
  proof
    assume "d = d'"
    then show ?thesis
      using assms(1,2,3) nth_mem [OF assms(1)] by auto
  next
    assume "d \<in> set ds"
    then show ?thesis by blast
  qed
qed

lemma inv_conserved: "inv s \<Longrightarrow> held s = total_staked s + total_escrow s"
  by (simp add: inv_def conserved_def)

lemma inv_counters:
  "inv s \<Longrightarrow> dealsCompleted (agents s a) + dealsFailed (agents s a) + active_count s
     \<le> length (deals s)"
  by (simp add: inv_def counters_ok_def)

lemma same_parties_refl:
  "d \<in> set ds \<Longrightarrow> \<exists>d0 \<in> set ds. creator d = creator d0 \<and> counterparty d = counterparty d0"
  by blast

lemma inv_stake:
  assumes "inv s" and "stake sender v s = Inr s'"
  shows "inv s'"
proof (rule inv_frame [OF assms(1)])
  note r = stake_Inr [OF assms(2)]
  have ag: "agents s' = (agents s)(sender := (agents s sender)\<lparr>staked := staked (agents s sender) + v\<rparr>)"
    and al: "agentList s' = agentList s" and dl: "deals s' = deals s" and h: "held s' = held s + v"
    by (simp_all add: r(1))
  have ts: "total_staked s' + staked (agents s sender) = total_staked s + (staked (agents s sender) + v)"
    using total_staked_update [OF inv_distinct [OF assms(1)] registered_in_list [OF assms(1) r(2)] ag al]
    by simp
  have te: "total_escrow s' = total_escrow s" and ac: "active_count s' = active_count s"
    by (simp_all add: total_escrow_def active_count_def dl)
  show "agentList s' = agentList s" by (rule al)
  show "exists (agents s' a) = exists (agents s a)" for a
    using r(2) by (simp add: ag)
  show "\<exists>d0 \<in> set (deals s). creator d = creator d0 \<and> counterparty d = counterparty d0"
    if "d \<in> set (deals s')" for d
    using that unfolding dl by (rule same_parties_refl)
  show "held s' = total_staked s' + total_escrow s'"
    using ts te h inv_conserved [OF assms(1)] by linarith
  show "dealsCompleted (agents s' a) + dealsFailed (agents s' a) + active_count s' \<le> length (deals s')" for a
    using inv_counters [OF assms(1), of a] inv_counters [OF assms(1), of sender]
    by (simp add: ag ac dl)
qed

lemma inv_requestUnstake:
  assumes "inv s" and "requestUnstake now sender s = Inr s'"
  shows "inv s'"
proof -
  have "agents s' = agents s" "agentList s' = agentList s" "deals s' = deals s" "held s' = held s"
    by (simp_all add: requestUnstake_Inr [OF assms(2)])
  then have "conserved s' = conserved s" "registry_ok s' = registry_ok s"
    "deals_ok s' = deals_ok s" "counters_ok s' = counters_ok s"
    by (simp_all add: conserved_def registry_ok_def deals_ok_def counters_ok_def
        total_staked_def total_escrow_def active_count_def)
  then show ?thesis
    using assms(1) by (simp add: inv_def)
qed

lemma inv_unstake:
  assumes "inv s" and "unstake now sender v s = Inr s'"
  shows "inv s'"
proof (rule inv_frame [OF assms(1)])
  note r = unstake_Inr [OF assms(2)]
  have ts: "total_staked s' + staked (agents s sender) = total_staked s + (staked (agents s sender) - v)"
    using total_staked_update [OF inv_distinct [OF assms(1)] registered_in_list [OF assms(1) r(6)] r(1) r(2)]
    by simp
  have te: "total_escrow s' = total_escrow s" and ac: "active_count s' = active_count s"
    by (simp_all add: total_escrow_def active_count_def r(3))
  show "agentList s' = agentList s" by (rule r(2))
  show "exists (agents s' a) = exists (agents s a)" for a
    using r(6) by (simp add: r(1))
  show "\<exists>d0 \<in> set (deals s). creator d = creator d0 \<and> counterparty d = counterparty d0"
    if "d \<in> set (deals s')" for d
    using that unfolding r(3) by (rule same_parties_refl)
  show "held s' = total_staked s' + total_escrow s'"
    using ts te r(4,5,7) inv_conserved [OF assms(1)] by linarith
  show "dealsCompleted (agents s' a) + dealsFailed (agents s' a) + active_count s' \<le> length (deals s')" for a
    using inv_counters [OF assms(1), of a] inv_counters [OF assms(1), of sender]
    by (simp add: r(1,3) ac)
qed

lemma inv_createDeal:
  assumes "inv s" and "createDeal now sender cp v descr dur s = Inr (i, s')"
  shows "inv s'"
proof -
  note r = createDeal_Inr [OF assms(2)]
  from r(2) obtain e where dl: "deals s' = deals s @ [\<lparr>deal_id = length (deals s), creator = sender, counterparty = cp,
             amount = v, description = descr, status = Active, createdAt = now,
             expiresAt = e, creatorConfirmed = False, counterpartyConfirmed = False\<rparr>]"
    by blast
  have ts: "total_staked s' = total_staked s"
    by (simp add: total_staked_def r(3,4))
  have te: "total_escrow s' = total_escrow s + v" and ac: "active_count s' = active_count s + 1"
    by (simp_all add: total_escrow_def active_count_def dl escrowed_def)
  have "registry_ok s'"
    using assms(1) by (simp add: inv_def registry_ok_def r(3,4))
  moreover have "deals_ok s'"
    using assms(1) r(6,7,8) by (auto simp: inv_def deals_ok_def r(3) dl)
  moreover have "conserved s'"
    using ts te r(5) inv_conserved [OF assms(1)] by (simp add: conserved_def)
  moreover have "counters_ok s'"
    unfolding counters_ok_def
  proof
    fix a
    show "dealsCompleted (agents s' a) + dealsFailed (agents s' a) + active_count s' \<le> length (deals s')"
      using inv_counters [OF assms(1), of a] by (simp add: r(3) ac dl)
  qed
  ultimately show ?thesis
    by (simp add: inv_def)
qed

lemma inv_cancelExpiredDeal:
  assumes "inv s" and "cancelExpiredDeal now sender i s = Inr s'"
  shows "inv s'"
proof (rule inv_frame [OF assms(1)])
  note r = cancelExpiredDeal_Inr [OF assms(2)]
  let ?d = "deals s ! i"
  have dl: "deals s' = (deals s)[i := ?d\<lparr>status := Expired\<rparr>]" and ag: "agents s' = agents s"
    and al: "agentList s' = agentList s" and h: "held s' = held s - amount ?d"
    by (simp_all add: r(1))
  have len: "length (deals s') = length (deals s)"
    by (simp add: dl)
  have ts: "total_staked s' = total_staked s"
    by (simp add: total_staked_def ag al)
  have te: "total_escrow s' + amount ?d = total_escrow s"
    using total_escrow_update [OF r(2) dl] r(3) by (simp add: escrowed_def)
  have ac: "active_count s' + 1 = active_count s"
    using active_count_update [OF r(2) dl] r(3) by simp
  show "agentList s' = agentList s" by (rule al)
  show "exists (agents s' a) = exists (agents s a)" for a
    by (simp add: ag)
  show "\<exists>d0 \<in> set (deals s). creator d = creator d0 \<and> counterparty d = counterparty d0"
    if "d \<in> set (deals s')" for d
    using that unfolding dl by (intro same_parties_update [OF r(2)]) simp_all
  show "held s' = total_staked s' + total_escrow s'"
    using ts te h r(5) inv_conserved [OF assms(1)] by linarith
  show "dealsCompleted (agents s' a) + dealsFailed (agents s' a) + active_count s' \<le> length (deals s')" for a
    using inv_counters [OF assms(1), of a] ac by (simp add: ag len)
qed

lemma inv_set_flag:
  assumes "inv s" and "i < length (deals s)"
    and "creator d1 = creator (deals s ! i)" and "counterparty d1 = counterparty (deals s ! i)"
    and "status d1 = status (deals s ! i)" and "amount d1 = amount (deals s ! i)"
  shows "inv (s\<lparr>deals := (deals s)[i := d1]\<rparr>)"
proof (rule inv_frame [OF assms(1)])
  let ?s' = "s\<lparr>deals := (deals s)[i := d1]\<rparr>"
  have dl: "deals ?s' = (deals s)[i := d1]"
    by simp
  have "escrowed d1 = escrowed (deals s ! i)"
    by (simp add: escrowed_def assms(5,6))
  then have te: "total_escrow ?s' = total_escrow s"
    using total_escrow_update [OF assms(2) dl] by simp
  have ac: "active_count ?s' = active_count s"
    using active_count_update [OF assms(2) dl] assms(5) by simp
  show "agentList ?s' = agentList s" by simp
  show "exists (agents ?s' a) = exists (agents s a)" for a by simp
  show "\<exists>d0 \<in> set (deals s). creator d = creator d0 \<and> counterparty d = counterparty d0"
    if "d \<in> set (deals ?s')" for d
    using that unfolding dl by (intro same_parties_update [OF assms(2)]) (simp_all add: assms(3,4))
  show "held ?s' = total_staked ?s' + total_escrow ?s'"
    using te inv_conserved [OF assms(1)] by (simp add: total_staked_def)
  show "dealsCompleted (agents ?s' a) + dealsFailed (agents ?s' a) + active_count ?s' \<le> length (deals ?s')" for a
    using inv_counters [OF assms(1), of a] by (simp add: ac)
qed

lemma inv_completeDeal:
  assumes "inv s" and "i < length (deals s)" and "status (deals s ! i) = Active"
    and "completeDeal now i s = Inr s'"
  shows "inv s'"
proof (rule inv_frame [OF assms(1)])
  let ?d = "deals s ! i"
  note ne = inv_deal(3) [OF assms(1,2)]
  note r = completeDeal_Inr [OF assms(4) assms(2) ne]
  have len: "length (deals s') = length (deals s)"
    by (simp add: r(1))
  have ts: "total_staked s' = total_staked s"
    by (rule total_staked_same) (simp_all add: r(2,3))
  have te: "total_escrow s' + amount ?d = total_escrow s"
    using total_escrow_update [OF assms(2) r(1)] assms(3) by (simp add: escrowed_def)
  have ac: "active_count s' + 1 = active_count s"
    using active_count_update [OF assms(2) r(1)] assms(3) by simp
  show "agentList s' = agentList s" by (rule r(3))
  show "exists (agents s' a) = exists (agents s a)" for a
    by (simp add: r(2))
  show "\<exists>d0 \<in> set (deals s). creator d = creator d0 \<and> counterparty d = counterparty d0"
    if "d \<in> set (deals s')" for d
    using that unfolding r(1) by (intro same_parties_update [OF assms(2)]) simp_all
  show "held s' = total_staked s' + total_escrow s'"
    using ts te r(4,5) inv_conserved [OF assms(1)] by linarith
  show "dealsCompleted (agents s' a) + dealsFailed (agents s' a) + active_count s' \<le> length (deals s')" for a
    using inv_counters [OF assms(1), of a] ac ne by (auto simp: r(2) len)
qed

lemma inv_confirmDeal:
  assumes "inv s" and "confirmDeal now sender i s = Inr s'"
  shows "inv s'"
proof -
  let ?d = "deals s ! i"
  let ?d1 = "if sender = creator ?d then ?d\<lparr>creatorConfirmed := True\<rparr>
             else ?d\<lparr>counterpartyConfirmed := True\<rparr>"
  let ?s1 = "s\<lparr>deals := (deals s)[i := ?d1]\<rparr>"
  note r = confirmDeal_Inr [OF assms(2)]
  have i1: "inv ?s1"
    by (rule inv_set_flag [OF assms(1) r(1)]) simp_all
  show ?thesis
  proof (cases "creatorConfirmed ?d1 \<and> counterpartyConfirmed ?d1")
    case True
    with r(4) have c: "completeDeal now i ?s1 = Inr s'"
      by simp
    have "status (deals ?s1 ! i) = Active"
      using r(1,2) by simp
    with i1 c show ?thesis
      using r(1) by (intro inv_completeDeal [OF i1 _ _ c]) simp_all
  next
    case False
    with r(4) have "s' = ?s1"
      by simp
    with i1 show ?thesis
      by simp
  qed
qed

lemma slash_le: "(x::nat) * SLASH_PERCENT div 100 \<le> x"
  by (simp add: SLASH_PERCENT_def)

lemma inv_disputeDeal:
  assumes "inv s" and "disputeDeal sender i s = Inr s'"
  shows "inv s'"
proof (rule inv_frame [OF assms(1)])
  let ?d = "deals s ! i"
  let ?t = "if sender = creator ?d then counterparty ?d else creator ?d"
  let ?slash = "staked (agents s ?t) * SLASH_PERCENT div 100"
  note r = disputeDeal_Inr [OF assms(2)]
  have reg: "exists (agents s ?t)"
    using inv_deal(1,2) [OF assms(1) r(1)] by simp
  have len: "length (deals s') = length (deals s)"
    by (simp add: r(7))
  have ts: "total_staked s' + staked (agents s ?t) = total_staked s + (staked (agents s ?t) - ?slash)"
    using total_staked_update [OF inv_distinct [OF assms(1)] registered_in_list [OF assms(1) reg] r(8) r(10)]
    by simp
  have te: "total_escrow s' + amount ?d = total_escrow s"
    using total_escrow_update [OF r(1) r(7)] r(2) by (simp add: escrowed_def)
  have ac: "active_count s' + 1 = active_count s"
    using active_count_update [OF r(1) r(7)] r(2) by simp
  show "agentList s' = agentList s" by (rule r(10))
  show "exists (agents s' a) = exists (agents s a)" for a
    using reg by (simp add: r(8))
  show "\<exists>d0 \<in> set (deals s). creator d = creator d0 \<and> counterparty d = counterparty d0"
    if "d \<in> set (deals s')" for d
    using that unfolding r(7) by (intro same_parties_update [OF r(1)]) simp_all
  show "held s' = total_staked s' + total_escrow s'"
    using ts te r(4,9) slash_le [of "staked (agents s ?t)"] inv_conserved [OF assms(1)] by linarith
  show "dealsCompleted (agents s' a) + dealsFailed (agents s' a) + active_count s' \<le> length (deals s')" for a
    using inv_counters [OF assms(1), of a] ac by (auto simp: r(8) len)
qed

lemma inv_exec:
  assumes "inv s" and "exec now op s = Inr s'"
  shows "inv s'"
proof (cases op)
  case (CreateDeal sender cp v descr dur)
  with assms(2) obtain r where "createDeal now sender cp v descr dur s = Inr r" and "s' = snd r"
    by (auto simp: and_then_eq_Inr)
  then have "createDeal now sender cp v descr dur s = Inr (fst r, s')"
    by simp
  then show ?thesis
    by (rule inv_createDeal [OF assms(1)])
qed (use assms in \<open>auto intro: inv_registerAgent inv_stake inv_requestUnstake inv_unstake
      inv_confirmDeal inv_disputeDeal inv_cancelExpiredDeal\<close>)

lemma inv_step: "inv s \<Longrightarrow> inv (step now op s)"
  by (cases "exec now op s") (auto simp: step_def intro: inv_exec)

lemma inv_run: "inv s \<Longrightarrow> inv (run txs s)"
  by (induction txs arbitrary: s) (simp_all add: inv_step)

subsection \<open>Conservation of funds\<close>

text \<open>
  C1. In every state reached from the freshly deployed contract by any sequence of
  operations (\<open>registerAgent\<close>, \<open>stake\<close>, \<open>requestUnstake\<close>, \<open>unstake\<close>,
  \<open>createDeal\<close>, \<open>confirmDeal\<close>, \<open>disputeDeal\<close>, \<open>cancelExpiredDeal\<close>, each
  committed or aborted), the token balance the contract holds equals the sum of all
  agents' staked balances plus the sum of the amounts of all deals whose status is
  \<open>Active\<close>. The agents are the entries of \<open>agentList\<close>, which lists every
  registered identity exactly once (\<open>registry_ok\<close>, part of \<open>inv\<close>).
\<close>

theorem conservation:
  "held (run txs (init bal)) =
     (\<Sum>a\<leftarrow>agentList (run txs (init bal)). staked (agents (run txs (init bal)) a)) +
     (\<Sum>d\<leftarrow>deals (run txs (init bal)). if status d = Active then amount d else 0)"
proof -
  have "inv (run txs (init bal))"
    by (rule inv_run [OF inv_init])
  then have "conserved (run txs (init bal))"
    by (simp add: inv_def)
  then show ?thesis
    by (simp add: conserved_def total_staked_def total_escrow_def escrowed_def cong: map_cong)
qed


text \<open>After scenario 3 the contract holds 190 units: Alice's 100 and Bob's remaining 90,
  and no deal is active.\<close>

theorem conservation_witness:
  "held (run dispute_history (init funded)) = 190000000 \<and>
   (\<Sum>a\<leftarrow>agentList (run dispute_history (init funded)).
       staked (agents (run dispute_history (init funded)) a)) = 190000000 \<and>
   (\<Sum>d\<leftarrow>deals (run dispute_history (init funded)). if status d = Active then amount d else 0) = 0"
proof -
  have "agentList (run dispute_history (init funded)) = [1, 2]"
    and "staked (agents (run dispute_history (init funded)) 1) = 100000000"
    and "staked (agents (run dispute_history (init funded)) 2) = 90000000"
    and "map status (deals (run dispute_history (init funded))) = [Disputed]"
    by (simp_all add: dispute_history_def init_def funded_def no_agent_def op_defs)
  then have a: "(\<Sum>a\<leftarrow>agentList (run dispute_history (init funded)).
       staked (agents (run dispute_history (init funded)) a)) = 190000000"
    and b: "(\<Sum>d\<leftarrow>deals (run dispute_history (init funded)). if status d = Active then amount d else 0) = 0"
    by (auto simp: map_eq_Cons_conv)
  with conservation [of dispute_history funded] show ?thesis
    by simp
qed


subsection \<open>Monotone lifecycle\<close>

lemma exec_terminal_deal:
  assumes "exec now op s = Inr s'" and "i < length (deals s)" and "status (deals s ! i) \<noteq> Active"
  shows "i < length (deals s') \<and> deals s' ! i = deals s ! i"
proof (cases op)
  case (RegisterAgent a nm)
  with assms show ?thesis by (auto dest!: registerAgent_Inr(1))
next
  case (Stake a v)
  with assms show ?thesis by (auto dest!: stake_Inr(1))
next
  case (RequestUnstake a)
  with assms show ?thesis by (auto dest!: requestUnstake_Inr)
next
  case (Unstake a v)
  with assms show ?thesis by (auto dest!: unstake_Inr(3))
next
  case (CreateDeal a cp v descr dur)
  with assms(1) obtain r where "createDeal now a cp v descr dur s = Inr (fst r, s')"
    by (auto simp: and_then_eq_Inr)
  from createDeal_Inr(2) [OF this] assms(2) show ?thesis
    by (auto simp: nth_append)
next
  case (ConfirmDeal a j)
  with assms(1) have c: "confirmDeal now a j s = Inr s'" by simp
  note r = confirmDeal_Inr [OF c]
  have ne: "j \<noteq> i" using r(2) assms(3) by auto
  let ?d1 = "if a = creator (deals s ! j) then (deals s ! j)\<lparr>creatorConfirmed := True\<rparr>
             else (deals s ! j)\<lparr>counterpartyConfirmed := True\<rparr>"
  let ?s1 = "s\<lparr>deals := (deals s)[j := ?d1]\<rparr>"
  show ?thesis
  proof (cases "creatorConfirmed ?d1 \<and> counterpartyConfirmed ?d1")
    case True
    with r(4) have "completeDeal now j ?s1 = Inr s'" by simp
    then have "deals s' = (deals ?s1)[j := (deals ?s1 ! j)\<lparr>status := Completed\<rparr>]"
      by (rule completeDeal_deals)
    then show ?thesis using ne assms(2) by simp
  next
    case False
    with r(4) have "s' = ?s1" by simp
    then show ?thesis using ne assms(2) by simp
  qed
next
  case (DisputeDeal a j)
  with assms(1) have c: "disputeDeal a j s = Inr s'" by simp
  note r = disputeDeal_Inr [OF c]
  have "j \<noteq> i" using r(2) assms(3) by auto
  then show ?thesis using assms(2) by (simp add: r(7))
next
  case (CancelExpiredDeal a j)
  with assms(1) have c: "cancelExpiredDeal now a j s = Inr s'" by simp
  note r = cancelExpiredDeal_Inr [OF c]
  have "j \<noteq> i" using r(3) assms(3) by auto
  then show ?thesis using assms(2) by (simp add: r(1))
qed

lemma step_terminal_deal:
  assumes "i < length (deals s)" and "status (deals s ! i) \<noteq> Active"
  shows "i < length (deals (step now op s)) \<and> deals (step now op s) ! i = deals s ! i"
  using assms by (cases "exec now op s") (auto simp: step_def dest: exec_terminal_deal)


text \<open>
  C6. Once a deal's status is not \<open>Active\<close>, no sequence of operations changes its
  status or any other field of its record; the deal stays in the array at its index.
\<close>

theorem terminal_deal_frozen:
  assumes "i < length (deals s)" and "status (deals s ! i) \<noteq> Active"
  shows "i < length (deals (run txs s)) \<and> deals (run txs s) ! i = deals s ! i"
  using assms
proof (induction txs arbitrary: s)
  case Nil
  then show ?case by simp
next
  case (Cons tx txs)
  from step_terminal_deal [OF Cons.prems, of "fst tx" "snd tx"]
  have a: "i < length (deals (step (fst tx) (snd tx) s))"
    and b: "deals (step (fst tx) (snd tx) s) ! i = deals s ! i"
    by simp_all
  from Cons.prems(2) b have "status (deals (step (fst tx) (snd tx) s) ! i) \<noteq> Active"
    by simp
  from Cons.IH [OF a this] b show ?case
    by simp
qed

text \<open>The disputed deal of scenario 3 is still the same record after a confirmation, a
  cancellation and a second dispute have been attempted on it.\<close>

theorem terminal_deal_frozen_witness:
  "0 < length (deals (run dispute_history (init funded))) \<and>
   status (deals (run dispute_history (init funded)) ! 0) \<noteq> Active \<and>
   0 < length (deals (run late_calls (run dispute_history (init funded)))) \<and>
   deals (run late_calls (run dispute_history (init funded))) ! 0
     = deals (run dispute_history (init funded)) ! 0"
proof -
  have a: "0 < length (deals (run dispute_history (init funded)))"
    and b: "status (deals (run dispute_history (init funded)) ! 0) \<noteq> Active"
    by (simp_all add: dispute_history_def init_def funded_def no_agent_def op_defs)
  from a b terminal_deal_frozen [OF a b, of late_calls] show ?thesis
    by simp
qed

subsection \<open>Confirmation\<close>

lemma and_then_isl_cong:
  assumes "\<And>v. m = Inr v \<Longrightarrow> isl (f v) = isl (g v)"
  shows "isl (and_then m f) = isl (and_then m g)"
  using assms by (cases m) simp_all

lemma completeDeal_isl: "isl (completeDeal now i s) = isl (completeDeal now' i s)"
  unfolding completeDeal_def Let_def
  by (intro and_then_isl_cong) simp

lemma confirmDeal_isl: "isl (confirmDeal now sender i s) = isl (confirmDeal now' sender i s)"
  by (simp add: confirmDeal_def Let_def completeDeal_isl [of now _ _ now'])

lemma step_aborted: "isl (exec now op s) \<Longrightarrow> step now op s = s"
  by (cases "exec now op s") (simp_all add: step_def)

lemma creatorConfirmed_again: "creatorConfirmed d \<Longrightarrow> d\<lparr>creatorConfirmed := True\<rparr> = d"
  by (cases d) simp

lemma counterpartyConfirmed_again:
  "counterpartyConfirmed d \<Longrightarrow> d\<lparr>counterpartyConfirmed := True\<rparr> = d"
  by (cases d) simp

lemma confirmDeal_again:
  assumes "i < length (deals s)" and "status (deals s ! i) = Active"
    and "sender = creator (deals s ! i) \<and> creatorConfirmed (deals s ! i) \<and>
           \<not> counterpartyConfirmed (deals s ! i)
         \<or> sender \<noteq> creator (deals s ! i) \<and> sender = counterparty (deals s ! i) \<and>
           counterpartyConfirmed (deals s ! i) \<and> \<not> creatorConfirmed (deals s ! i)"
  shows "confirmDeal now sender i s = Inr s"
  using assms
  by (auto simp: confirmDeal_def set_deal_def creatorConfirmed_again counterpartyConfirmed_again)


text \<open>
  C9. Calling \<open>confirmDeal\<close> twice in a row on the same deal from the same account
  leaves the state the first call left: if the first call completed the deal the second
  aborts ("Deal not active"), otherwise the second sets the flag that is already set.
  This holds for every state, deal id, account and pair of block timestamps.
\<close>

theorem confirmDeal_idempotent:
  "step now' (ConfirmDeal sender i) (step now (ConfirmDeal sender i) s)
     = step now (ConfirmDeal sender i) s"
proof (cases "confirmDeal now sender i s")
  case (Inl e)
  then have "isl (confirmDeal now' sender i s)"
    using confirmDeal_isl [of now sender i s now'] by simp
  then have "step now' (ConfirmDeal sender i) s = s"
    by (intro step_aborted) simp
  moreover have "step now (ConfirmDeal sender i) s = s"
    using Inl by (simp add: step_def)
  ultimately show ?thesis
    by simp
next
  case (Inr s1)
  let ?d = "deals s ! i"
  let ?d1 = "if sender = creator ?d then ?d\<lparr>creatorConfirmed := True\<rparr>
             else ?d\<lparr>counterpartyConfirmed := True\<rparr>"
  note r = confirmDeal_Inr [OF Inr]
  have st: "step now (ConfirmDeal sender i) s = s1"
    using Inr by (simp add: step_def)
  have "step now' (ConfirmDeal sender i) s1 = s1"
  proof (cases "creatorConfirmed ?d1 \<and> counterpartyConfirmed ?d1")
    case True
    with r(4) have "completeDeal now i (s\<lparr>deals := (deals s)[i := ?d1]\<rparr>) = Inr s1"
      by simp
    from completeDeal_deals [OF this] r(1)
    have "i < length (deals s1)" and "status (deals s1 ! i) = Completed"
      by simp_all
    then have "confirmDeal now' sender i s1 = Inl DealNotActive"
      by (simp add: confirmDeal_def)
    then show ?thesis
      by (simp add: step_def)
  next
    case False
    with r(4) have s1: "s1 = s\<lparr>deals := (deals s)[i := ?d1]\<rparr>"
      by simp
    have "confirmDeal now' sender i s1 = Inr s1"
    proof (rule confirmDeal_again)
      show "i < length (deals s1)"
        using r(1) by (simp add: s1)
      have d1: "deals s1 ! i = ?d1"
        using r(1) by (simp add: s1)
      show "status (deals s1 ! i) = Active"
        unfolding d1 using r(2) by simp
      show "sender = creator (deals s1 ! i) \<and> creatorConfirmed (deals s1 ! i) \<and>
           \<not> counterpartyConfirmed (deals s1 ! i)
         \<or> sender \<noteq> creator (deals s1 ! i) \<and> sender = counterparty (deals s1 ! i) \<and>
           counterpartyConfirmed (deals s1 ! i) \<and> \<not> creatorConfirmed (deals s1 ! i)"
        unfolding d1 using False r(3) by (cases "sender = creator ?d") simp_all
    qed
    then show ?thesis
      by (simp add: step_def)
  qed
  with st show ?thesis
    by simp
qed

text \<open>Alice confirms the open deal of scenario 3 twice: her flag is set by the first
  call and the second changes nothing.\<close>

theorem confirmDeal_idempotent_witness:
  "step 8 (ConfirmDeal 1 0) (step 7 (ConfirmDeal 1 0) (run open_deal_history (init funded)))
     = step 7 (ConfirmDeal 1 0) (run open_deal_history (init funded)) \<and>
   \<not> creatorConfirmed (deals (run open_deal_history (init funded)) ! 0) \<and>
   creatorConfirmed (deals (step 7 (ConfirmDeal 1 0) (run open_deal_history (init funded))) ! 0)"
proof -
  have "\<not> creatorConfirmed (deals (run open_deal_history (init funded)) ! 0)"
    and "creatorConfirmed (deals (step 7 (ConfirmDeal 1 0) (run open_deal_history (init funded))) ! 0)"
    by (simp_all add: open_deal_history_def init_def funded_def no_agent_def op_defs)
  with confirmDeal_idempotent [of 8 1 0 7 "run open_deal_history (init funded)"]
  show ?thesis
    by simp
qed

text \<open>
  C2. When a \<open>confirmDeal\<close> call returns and both confirmation flags of the deal are
  then set, the same call has moved the deal from \<open>Active\<close> to \<open>Completed\<close>,
  released the full escrowed amount from the contract to the counterparty, and raised
  \<open>dealsCompleted\<close> by 1 and \<open>totalVolume\<close> by the deal's amount for the creator
  and for the counterparty. (A call that returns was made by a party on an \<open>Active\<close>
  deal; creator and counterparty of a deal differ, \<open>inv_deal\<close>.)
\<close>

theorem confirmDeal_completes:
  assumes "confirmDeal now sender i s = Inr s'"
    and "creatorConfirmed (deals s' ! i) \<and> counterpartyConfirmed (deals s' ! i)"
    and "creator (deals s ! i) \<noteq> counterparty (deals s ! i)"
  shows "status (deals s ! i) = Active \<and> status (deals s' ! i) = Completed \<and>
    held s' + amount (deals s ! i) = held s \<and>
    balanceOf s' (counterparty (deals s ! i))
      = balanceOf s (counterparty (deals s ! i)) + amount (deals s ! i) \<and>
    dealsCompleted (agents s' (creator (deals s ! i)))
      = dealsCompleted (agents s (creator (deals s ! i))) + 1 \<and>
    dealsCompleted (agents s' (counterparty (deals s ! i)))
      = dealsCompleted (agents s (counterparty (deals s ! i))) + 1 \<and>
    totalVolume (agents s' (creator (deals s ! i)))
      = totalVolume (agents s (creator (deals s ! i))) + amount (deals s ! i) \<and>
    totalVolume (agents s' (counterparty (deals s ! i)))
      = totalVolume (agents s (counterparty (deals s ! i))) + amount (deals s ! i)"
proof -
  let ?d = "deals s ! i"
  let ?d1 = "if sender = creator ?d then ?d\<lparr>creatorConfirmed := True\<rparr>
             else ?d\<lparr>counterpartyConfirmed := True\<rparr>"
  let ?s1 = "s\<lparr>deals := (deals s)[i := ?d1]\<rparr>"
  note r = confirmDeal_Inr [OF assms(1)]
  have both: "creatorConfirmed ?d1 \<and> counterpartyConfirmed ?d1"
  proof (rule ccontr)
    assume n: "\<not> (creatorConfirmed ?d1 \<and> counterpartyConfirmed ?d1)"
    with r(4) have "s' = ?s1" by simp
    then have "deals s' ! i = ?d1" using r(1) by simp
    with assms(2) n show False by simp
  qed
  with r(4) have c: "completeDeal now i ?s1 = Inr s'"
    by simp
  have i1: "i < length (deals ?s1)" and d1: "deals ?s1 ! i = ?d1"
    using r(1) by simp_all
  have ne: "creator (deals ?s1 ! i) \<noteq> counterparty (deals ?s1 ! i)"
    unfolding d1 using assms(3) by simp
  note k = completeDeal_Inr [OF c i1 ne]
  have am: "amount ?d1 = amount ?d" and cr: "creator ?d1 = creator ?d"
    and cp: "counterparty ?d1 = counterparty ?d"
    by simp_all
  have "status (deals s' ! i) = Completed"
    using k(1) i1 by simp
  moreover have "held s' + amount ?d = held s"
    using k(4,5) unfolding d1 am by simp
  moreover have "balanceOf s' (counterparty ?d) = balanceOf s (counterparty ?d) + amount ?d"
    using k(6) unfolding d1 am cp by simp
  moreover have "agents s' = (agents s)
           (creator ?d := (agents s (creator ?d))\<lparr>dealsCompleted := dealsCompleted (agents s (creator ?d)) + 1,
                 totalVolume := totalVolume (agents s (creator ?d)) + amount ?d\<rparr>,
            counterparty ?d := (agents s (counterparty ?d))\<lparr>dealsCompleted := dealsCompleted (agents s (counterparty ?d)) + 1,
                 totalVolume := totalVolume (agents s (counterparty ?d)) + amount ?d\<rparr>)"
    using k(2) unfolding d1 am cr cp by simp
  ultimately show ?thesis
    using r(2) assms(3) by simp
qed

text \<open>Bob's confirmation after Alice's completes the 50-unit deal of scenario 2.\<close>

theorem confirmDeal_completes_witness:
  "confirmDeal 8 2 0 (run half_confirmed_history (init funded))
     = Inr (run completed_history (init funded)) \<and>
   creatorConfirmed (deals (run completed_history (init funded)) ! 0) \<and>
   counterpartyConfirmed (deals (run completed_history (init funded)) ! 0) \<and>
   creator (deals (run half_confirmed_history (init funded)) ! 0) = 1 \<and>
   counterparty (deals (run half_confirmed_history (init funded)) ! 0) = 2 \<and>
   amount (deals (run half_confirmed_history (init funded)) ! 0) = 50000000 \<and>
   status (deals (run completed_history (init funded)) ! 0) = Completed \<and>
   held (run completed_history (init funded)) + 50000000
     = held (run half_confirmed_history (init funded)) \<and>
   balanceOf (run completed_history (init funded)) 2
     = balanceOf (run half_confirmed_history (init funded)) 2 + 50000000 \<and>
   dealsCompleted (agents (run completed_history (init funded)) 1) = 1 \<and>
   dealsCompleted (agents (run completed_history (init funded)) 2) = 1 \<and>
   totalVolume (agents (run completed_history (init funded)) 1) = 50000000 \<and>
   totalVolume (agents (run completed_history (init funded)) 2) = 50000000"
proof -
  let ?s = "run half_confirmed_history (init funded)"
  let ?s' = "run completed_history (init funded)"
  have a: "confirmDeal 8 2 0 ?s = Inr ?s'"
    by (simp add: completed_history_def half_confirmed_history_def open_deal_history_def
        init_def funded_def no_agent_def op_defs)
  have b: "creatorConfirmed (deals ?s' ! 0) \<and> counterpartyConfirmed (deals ?s' ! 0)"
    by (simp add: completed_history_def half_confirmed_history_def open_deal_history_def
        init_def funded_def no_agent_def op_defs)
  have c: "creator (deals ?s ! 0) = 1" "counterparty (deals ?s ! 0) = 2"
    "amount (deals ?s ! 0) = 50000000"
    "dealsCompleted (agents ?s 1) = 0" "dealsCompleted (agents ?s 2) = 0"
    "totalVolume (agents ?s 1) = 0" "totalVolume (agents ?s 2) = 0"
    by (simp_all add: half_confirmed_history_def open_deal_history_def
        init_def funded_def no_agent_def op_defs)
  have d: "creator (deals ?s ! 0) \<noteq> counterparty (deals ?s ! 0)"
    by (simp add: c)
  from confirmDeal_completes [OF a b d] a b c show ?thesis
    by simp
qed

subsection \<open>The states of the example histories\<close>

lemma open_deal_state:
  "length (deals (run open_deal_history (init funded))) = 1"
  "status (deals (run open_deal_history (init funded)) ! 0) = Active"
  "creator (deals (run open_deal_history (init funded)) ! 0) = 1"
  "counterparty (deals (run open_deal_history (init funded)) ! 0) = 2"
  "amount (deals (run open_deal_history (init funded)) ! 0) = 50000000"
  "expiresAt (deals (run open_deal_history (init funded)) ! 0) = 604805"
  "staked (agents (run open_deal_history (init funded)) 1) = 100000000"
  "staked (agents (run open_deal_history (init funded)) 2) = 100000000"
  "dealsFailed (agents (run open_deal_history (init funded)) 2) = 0"
  "held (run open_deal_history (init funded)) = 250000000"
  by (simp_all add: open_deal_history_def init_def funded_def no_agent_def op_defs)

lemma unstaked_state:
  "length (deals (run unstaked_history (init funded))) = 1"
  "status (deals (run unstaked_history (init funded)) ! 0) = Active"
  "creator (deals (run unstaked_history (init funded)) ! 0) = 1"
  "counterparty (deals (run unstaked_history (init funded)) ! 0) = 2"
  "amount (deals (run unstaked_history (init funded)) ! 0) = 50000000"
  "staked (agents (run unstaked_history (init funded)) 2) = 0"
  "dealsFailed (agents (run unstaked_history (init funded)) 2) = 0"
  by (simp_all add: unstaked_history_def init_def funded_def no_agent_def op_defs)

lemma dust_state:
  "length (deals (run dust_history (init funded))) = 1"
  "status (deals (run dust_history (init funded)) ! 0) = Active"
  "creator (deals (run dust_history (init funded)) ! 0) = 1"
  "counterparty (deals (run dust_history (init funded)) ! 0) = 2"
  "amount (deals (run dust_history (init funded)) ! 0) = 50000000"
  "staked (agents (run dust_history (init funded)) 2) = 5"
  "dealsFailed (agents (run dust_history (init funded)) 2) = 0"
  by (simp_all add: dust_history_def init_def funded_def no_agent_def op_defs)

lemma small_length: "Suc 0 \<le> UINT_MAX"
  by (simp add: UINT_MAX_def)


subsection \<open>Disputes\<close>

lemma disputeDeal_core:
  assumes "i < length (deals s)" and "status (deals s ! i) = Active"
    and "sender = creator (deals s ! i) \<and> t = counterparty (deals s ! i) \<or>
         sender \<noteq> creator (deals s ! i) \<and> sender = counterparty (deals s ! i) \<and> t = creator (deals s ! i)"
    and "amount (deals s ! i) + k \<le> held s"
    and "staked (agents s t) * SLASH_PERCENT \<le> UINT_MAX"
    and "k = staked (agents s t) * SLASH_PERCENT div 100"
    and "dealsFailed (agents s t) + 1 \<le> UINT_MAX"
  shows "\<exists>s'. disputeDeal sender i s = Inr s' \<and>
    deals s' = (deals s)[i := (deals s ! i)\<lparr>status := Disputed\<rparr>] \<and>
    agents s' = (agents s)(t := (agents s t)\<lparr>staked := staked (agents s t) - k,
         dealsFailed := dealsFailed (agents s t) + 1\<rparr>) \<and>
    held s' = held s - amount (deals s ! i) - k \<and>
    (\<forall>a. balanceOf s' a = balanceOf s a + (if a = creator (deals s ! i) then amount (deals s ! i) else 0)
                                       + (if a = sender then k else 0)) \<and>
    events s' = events s @ (if 0 < k then [Slashed t k i] else []) @ [DealDisputed i sender] \<and>
    calls s' = calls s
           @ [\<lparr>incoming = False, party = creator (deals s ! i), call_value = amount (deals s ! i),
                agents_seen = agents s,
                deals_seen = (deals s)[i := (deals s ! i)\<lparr>status := Disputed\<rparr>]\<rparr>]
           @ (if 0 < k
              then [\<lparr>incoming = False, party = sender, call_value = k,
                     agents_seen = (agents s)(t := (agents s t)\<lparr>staked := staked (agents s t) - k\<rparr>),
                     deals_seen = (deals s)[i := (deals s ! i)\<lparr>status := Disputed\<rparr>]\<rparr>]
              else [])"
proof -
  have le: "k \<le> staked (agents s t)"
    by (simp add: assms(6) slash_le)
  from assms(3) show ?thesis
  proof
    assume a: "sender = creator (deals s ! i) \<and> t = counterparty (deals s ! i)"
    show ?thesis
    proof (cases "0 < k")
      case True
      then show ?thesis
        using le a assms(1,2,4,5,7) assms(6) [symmetric]
        by (simp add: disputeDeal_def safeTransfer_def checked_add_def checked_mul_def
            checked_sub_def set_agent_def set_deal_def emit_def Let_def)
    next
      case False
      then show ?thesis
        using le a assms(1,2,4,5,7) assms(6) [symmetric]
        by (simp add: disputeDeal_def safeTransfer_def checked_add_def checked_mul_def
            checked_sub_def set_agent_def set_deal_def emit_def Let_def)
    qed
  next
    assume a: "sender \<noteq> creator (deals s ! i) \<and> sender = counterparty (deals s ! i) \<and> t = creator (deals s ! i)"
    show ?thesis
    proof (cases "0 < k")
      case True
      then show ?thesis
        using le a assms(1,2,4,5,7) assms(6) [symmetric]
        by (simp add: disputeDeal_def safeTransfer_def checked_add_def checked_mul_def
            checked_sub_def set_agent_def set_deal_def emit_def Let_def)
    next
      case False
      then show ?thesis
        using le a assms(1,2,4,5,7) assms(6) [symmetric]
        by (simp add: disputeDeal_def safeTransfer_def checked_add_def checked_mul_def
            checked_sub_def set_agent_def set_deal_def emit_def Let_def)
    qed
  qed
qed

lemma escrow_covered:
  assumes "conserved s" and "i < length (deals s)" and "status (deals s ! i) = Active"
  shows "total_staked s + amount (deals s ! i) \<le> held s"
proof -
  have "escrowed (deals s ! i) \<le> total_escrow s"
    unfolding total_escrow_def using assms(2) by (intro member_le_sum_list) simp_all
  then show ?thesis
    using assms(1,3) by (simp add: conserved_def escrowed_def)
qed

lemma stake_covered:
  assumes "a \<in> set (agentList s)"
  shows "staked (agents s a) \<le> total_staked s"
  unfolding total_staked_def using assms by (intro member_le_sum_list) simp_all

lemma active_count_pos:
  assumes "i < length (deals s)" and "status (deals s ! i) = Active"
  shows "0 < active_count s"
proof -
  have "deals s ! i \<in> set (filter (\<lambda>d. status d = Active) (deals s))"
    using assms by simp
  from length_pos_if_in_set [OF this] show ?thesis
    by (simp add: active_count_def)
qed

text \<open>In a state the invariant holds in, a dispute by a party goes through unless the
  slash computation overflows.\<close>

lemma disputeDeal_party:
  assumes "inv s" and "length (deals s) \<le> UINT_MAX" and "i < length (deals s)"
    and "status (deals s ! i) = Active"
    and "sender = creator (deals s ! i) \<or> sender = counterparty (deals s ! i)"
    and "staked (agents s (slashTarget sender (deals s ! i))) * SLASH_PERCENT \<le> UINT_MAX"
  defines "t \<equiv> slashTarget sender (deals s ! i)"
  defines "k \<equiv> slashAmount s (slashTarget sender (deals s ! i))"
  shows "\<exists>s'. disputeDeal sender i s = Inr s' \<and>
    deals s' = (deals s)[i := (deals s ! i)\<lparr>status := Disputed\<rparr>] \<and>
    agents s' = (agents s)(t := (agents s t)\<lparr>staked := staked (agents s t) - k,
         dealsFailed := dealsFailed (agents s t) + 1\<rparr>) \<and>
    held s' = held s - amount (deals s ! i) - k \<and>
    amount (deals s ! i) + k \<le> held s \<and> k \<le> staked (agents s t) \<and>
    (\<forall>a. balanceOf s' a = balanceOf s a + (if a = creator (deals s ! i) then amount (deals s ! i) else 0)
                                       + (if a = sender then k else 0)) \<and>
    events s' = events s @ (if 0 < k then [Slashed t k i] else []) @ [DealDisputed i sender] \<and>
    transfers s s' = (creator (deals s ! i), amount (deals s ! i)) # (if 0 < k then [(sender, k)] else [])"
proof -
  let ?d = "deals s ! i"
  have ne: "creator ?d \<noteq> counterparty ?d" and reg: "exists (agents s t)"
    using inv_deal [OF assms(1,3)] by (simp_all add: t_def slashTarget_def)
  have who: "sender = creator ?d \<and> t = counterparty ?d \<or>
         sender \<noteq> creator ?d \<and> sender = counterparty ?d \<and> t = creator ?d"
    using assms(5) ne by (auto simp: t_def slashTarget_def)
  have kle: "k \<le> staked (agents s t)"
    by (simp add: k_def t_def slashAmount_def slash_le)
  have "staked (agents s t) \<le> total_staked s"
    by (rule stake_covered [OF registered_in_list [OF assms(1) reg]])
  moreover have "total_staked s + amount ?d \<le> held s"
    using assms(1) by (intro escrow_covered [OF _ assms(3,4)]) (simp add: inv_def)
  ultimately have funds: "amount ?d + k \<le> held s"
    using kle by linarith
  have "dealsFailed (agents s t) + active_count s \<le> length (deals s)"
    using inv_counters [OF assms(1), of t] by simp
  with active_count_pos [OF assms(3,4)] assms(2) have cnt: "dealsFailed (agents s t) + 1 \<le> UINT_MAX"
    by linarith
  have keq: "k = staked (agents s t) * SLASH_PERCENT div 100"
    by (simp add: k_def t_def slashAmount_def)
  have ovf: "staked (agents s t) * SLASH_PERCENT \<le> UINT_MAX"
    using assms(6) by (simp add: t_def)
  from disputeDeal_core [OF assms(3,4) who funds ovf keq cnt]
  obtain s' where s': "disputeDeal sender i s = Inr s'"
    "deals s' = (deals s)[i := ?d\<lparr>status := Disputed\<rparr>]"
    "agents s' = (agents s)(t := (agents s t)\<lparr>staked := staked (agents s t) - k,
         dealsFailed := dealsFailed (agents s t) + 1\<rparr>)"
    "held s' = held s - amount ?d - k"
    "\<forall>a. balanceOf s' a = balanceOf s a + (if a = creator ?d then amount ?d else 0)
                                       + (if a = sender then k else 0)"
    "events s' = events s @ (if 0 < k then [Slashed t k i] else []) @ [DealDisputed i sender]"
    "calls s' = calls s
           @ [\<lparr>incoming = False, party = creator ?d, call_value = amount ?d,
                agents_seen = agents s,
                deals_seen = (deals s)[i := ?d\<lparr>status := Disputed\<rparr>]\<rparr>]
           @ (if 0 < k
              then [\<lparr>incoming = False, party = sender, call_value = k,
                     agents_seen = (agents s)(t := (agents s t)\<lparr>staked := staked (agents s t) - k\<rparr>),
                     deals_seen = (deals s)[i := ?d\<lparr>status := Disputed\<rparr>]\<rparr>]
              else [])"
    by blast
  have "transfers s s' = (creator ?d, amount ?d) # (if 0 < k then [(sender, k)] else [])"
    by (simp add: transfers_def issued_def s'(7))
  with s'(1-6) funds kle show ?thesis
    by blast
qed

lemma slashAmount_tenth: "slashAmount s t = staked (agents s t) div 10"
  by (simp add: slashAmount_def SLASH_PERCENT_def)

lemma disputeDeal_NotAParty:
  assumes "i < length (deals s)" and "status (deals s ! i) = Active"
    and "sender \<noteq> creator (deals s ! i)" and "sender \<noteq> counterparty (deals s ! i)"
  shows "disputeDeal sender i s = Inl NotAParty"
  using assms by (simp add: disputeDeal_def)


lemma disputeDeal_overflow:
  assumes "i < length (deals s)" and "status (deals s ! i) = Active"
    and "sender = creator (deals s ! i) \<or> sender = counterparty (deals s ! i)"
    and "amount (deals s ! i) \<le> held s"
    and "UINT_MAX < staked (agents s (slashTarget sender (deals s ! i))) * SLASH_PERCENT"
  shows "disputeDeal sender i s = Inl Panic"
proof (cases "sender = creator (deals s ! i)")
  case True
  then show ?thesis
    using assms(1,2,4,5)
    by (simp add: disputeDeal_def safeTransfer_def checked_mul_def set_deal_def slashTarget_def
        Let_def)
next
  case False
  then show ?thesis
    using assms
    by (simp add: disputeDeal_def safeTransfer_def checked_mul_def set_deal_def slashTarget_def
        Let_def)
qed


lemma whale_state:
  "length (deals (run whale_history (init rich))) = 1"
  "status (deals (run whale_history (init rich)) ! 0) = Active"
  "creator (deals (run whale_history (init rich)) ! 0) = 1"
  "counterparty (deals (run whale_history (init rich)) ! 0) = 2"
  "staked (agents (run whale_history (init rich)) 2) = 2 ^ 255"
  by (simp_all add: whale_history_def init_def rich_def no_agent_def op_defs)

text \<open>
  C3 (as amended). On an \<open>Active\<close> deal, in a state the invariant holds in (every
  reachable state, \<open>inv_run\<close>; the deal array's length is a \<open>uint256\<close>):
  \<open>disputeDeal\<close> by anyone but the two parties aborts with "Not a party to this deal".
  Called by a party, and provided ten times the other party's stake does not exceed
  \<open>2^256 - 1\<close>, it returns and has set the deal to \<open>Disputed\<close>, paid the full
  escrowed amount to the creator, taken \<open>k = floor (stake / 10)\<close> from the stake of the
  party that did not call, paid \<open>k\<close> to the caller when \<open>k > 0\<close>, and raised that
  party's \<open>dealsFailed\<close> by 1. When that party's stake is zero the only token transfer
  is the escrow's return, and status and \<open>dealsFailed\<close> change all the same. Called by
  a party when ten times the other party's stake exceeds \<open>2^256 - 1\<close>, it aborts with
  an arithmetic panic and the state stays as it was.
\<close>

theorem disputeDeal_effect:
  fixes s :: State and i :: nat and sender :: address
  defines "d \<equiv> deals s ! i"
  defines "t \<equiv> slashTarget sender (deals s ! i)"
  defines "k \<equiv> slashAmount s (slashTarget sender (deals s ! i))"
  assumes "inv s" and "length (deals s) \<le> UINT_MAX" and "i < length (deals s)"
    and "status (deals s ! i) = Active"
  shows
   "(sender \<noteq> creator d \<and> sender \<noteq> counterparty d \<longrightarrow>
       disputeDeal sender i s = Inl NotAParty) \<and>
    ((sender = creator d \<or> sender = counterparty d) \<and>
       staked (agents s t) * SLASH_PERCENT \<le> UINT_MAX \<longrightarrow>
       (\<exists>s'. disputeDeal sender i s = Inr s' \<and>
          status (deals s' ! i) = Disputed \<and>
          held s' + amount d + k = held s \<and>
          (\<forall>a. balanceOf s' a = balanceOf s a + (if a = creator d then amount d else 0)
                                             + (if a = sender then k else 0)) \<and>
          k = staked (agents s t) div 10 \<and>
          staked (agents s' t) + k = staked (agents s t) \<and>
          dealsFailed (agents s' t) = dealsFailed (agents s t) + 1 \<and>
          transfers s s' = (creator d, amount d) # (if 0 < k then [(sender, k)] else []))) \<and>
    ((sender = creator d \<or> sender = counterparty d) \<and> staked (agents s t) = 0 \<longrightarrow>
       (\<exists>s'. disputeDeal sender i s = Inr s' \<and>
          status (deals s' ! i) = Disputed \<and>
          transfers s s' = [(creator d, amount d)] \<and>
          balanceOf s' (creator d) = balanceOf s (creator d) + amount d \<and>
          staked (agents s' t) = 0 \<and>
          dealsFailed (agents s' t) = dealsFailed (agents s t) + 1)) \<and>
    ((sender = creator d \<or> sender = counterparty d) \<and>
       UINT_MAX < staked (agents s t) * SLASH_PERCENT \<longrightarrow>
       disputeDeal sender i s = Inl Panic \<and> step now (DisputeDeal sender i) s = s)"
proof (intro conjI impI)
  assume "sender \<noteq> creator d \<and> sender \<noteq> counterparty d"
  then show "disputeDeal sender i s = Inl NotAParty"
    using assms(6,7) by (intro disputeDeal_NotAParty) (simp_all add: d_def)
next
  assume h: "(sender = creator d \<or> sender = counterparty d) \<and>
       staked (agents s t) * SLASH_PERCENT \<le> UINT_MAX"
  then have p: "sender = creator (deals s ! i) \<or> sender = counterparty (deals s ! i)"
    and o: "staked (agents s (slashTarget sender (deals s ! i))) * SLASH_PERCENT \<le> UINT_MAX"
    by (simp_all add: d_def t_def)
  from disputeDeal_party [OF assms(4,5,6,7) p o]
  obtain s' where s': "disputeDeal sender i s = Inr s'"
    "deals s' = (deals s)[i := d\<lparr>status := Disputed\<rparr>]"
    "agents s' = (agents s)(t := (agents s t)\<lparr>staked := staked (agents s t) - k,
         dealsFailed := dealsFailed (agents s t) + 1\<rparr>)"
    "held s' = held s - amount d - k"
    "amount d + k \<le> held s" "k \<le> staked (agents s t)"
    "\<forall>a. balanceOf s' a = balanceOf s a + (if a = creator d then amount d else 0)
                                       + (if a = sender then k else 0)"
    "transfers s s' = (creator d, amount d) # (if 0 < k then [(sender, k)] else [])"
    unfolding d_def t_def k_def by blast
  have "status (deals s' ! i) = Disputed"
    using assms(6) by (simp add: s'(2))
  moreover have "held s' + amount d + k = held s"
    using s'(4,5) by simp
  moreover have "k = staked (agents s t) div 10"
    by (simp add: k_def t_def slashAmount_tenth)
  moreover have "staked (agents s' t) + k = staked (agents s t)"
    using s'(6) by (simp add: s'(3))
  moreover have "dealsFailed (agents s' t) = dealsFailed (agents s t) + 1"
    by (simp add: s'(3))
  ultimately show "\<exists>s'. disputeDeal sender i s = Inr s' \<and>
          status (deals s' ! i) = Disputed \<and>
          held s' + amount d + k = held s \<and>
          (\<forall>a. balanceOf s' a = balanceOf s a + (if a = creator d then amount d else 0)
                                             + (if a = sender then k else 0)) \<and>
          k = staked (agents s t) div 10 \<and>
          staked (agents s' t) + k = staked (agents s t) \<and>
          dealsFailed (agents s' t) = dealsFailed (agents s t) + 1 \<and>
          transfers s s' = (creator d, amount d) # (if 0 < k then [(sender, k)] else [])"
    using s'(1,7,8) by blast
next
  assume h: "(sender = creator d \<or> sender = counterparty d) \<and> staked (agents s t) = 0"
  then have p: "sender = creator (deals s ! i) \<or> sender = counterparty (deals s ! i)"
    and o: "staked (agents s (slashTarget sender (deals s ! i))) * SLASH_PERCENT \<le> UINT_MAX"
    and z: "k = 0"
    by (simp_all add: d_def t_def k_def slashAmount_def)
  from disputeDeal_party [OF assms(4,5,6,7) p o]
  obtain s' where s': "disputeDeal sender i s = Inr s'"
    "deals s' = (deals s)[i := d\<lparr>status := Disputed\<rparr>]"
    "agents s' = (agents s)(t := (agents s t)\<lparr>staked := staked (agents s t) - k,
         dealsFailed := dealsFailed (agents s t) + 1\<rparr>)"
    "\<forall>a. balanceOf s' a = balanceOf s a + (if a = creator d then amount d else 0)
                                       + (if a = sender then k else 0)"
    "transfers s s' = (creator d, amount d) # (if 0 < k then [(sender, k)] else [])"
    unfolding d_def t_def k_def by blast
  have "status (deals s' ! i) = Disputed"
    using assms(6) by (simp add: s'(2))
  moreover have "transfers s s' = [(creator d, amount d)]"
    by (simp add: s'(5) z)
  moreover have "balanceOf s' (creator d) = balanceOf s (creator d) + amount d"
    using s'(4) z by simp
  moreover have "staked (agents s' t) = 0"
    using h by (simp add: s'(3))
  moreover have "dealsFailed (agents s' t) = dealsFailed (agents s t) + 1"
    by (simp add: s'(3))
  ultimately show "\<exists>s'. disputeDeal sender i s = Inr s' \<and>
          status (deals s' ! i) = Disputed \<and>
          transfers s s' = [(creator d, amount d)] \<and>
          balanceOf s' (creator d) = balanceOf s (creator d) + amount d \<and>
          staked (agents s' t) = 0 \<and>
          dealsFailed (agents s' t) = dealsFailed (agents s t) + 1"
    using s'(1) by blast
next
  assume h: "(sender = creator d \<or> sender = counterparty d) \<and>
       UINT_MAX < staked (agents s t) * SLASH_PERCENT"
  have "conserved s"
    using assms(4) by (simp add: inv_def)
  from escrow_covered [OF this assms(6,7)] have "amount (deals s ! i) \<le> held s"
    by simp
  with h show "disputeDeal sender i s = Inl Panic"
    unfolding d_def t_def by (intro disputeDeal_overflow [OF assms(6,7)]) simp_all
  then show "step now (DisputeDeal sender i) s = s"
    by (simp add: step_def)
qed

text \<open>Scenario 3 of the spec (Alice receives 50 + 10 units, Bob keeps 90 and has one
  failed deal), a stranger's attempt, a dispute against a party without stake, and a
  dispute against a party with \<open>2^255\<close> base units staked.\<close>

theorem disputeDeal_effect_witness:
  "disputeDeal 3 0 (run open_deal_history (init funded)) = Inl NotAParty \<and>
   (\<exists>s'. disputeDeal 1 0 (run open_deal_history (init funded)) = Inr s' \<and>
      status (deals s' ! 0) = Disputed \<and>
      held s' + 60000000 = held (run open_deal_history (init funded)) \<and>
      balanceOf s' 1 = balanceOf (run open_deal_history (init funded)) 1 + 60000000 \<and>
      staked (agents s' 2) + 10000000 = 100000000 \<and>
      dealsFailed (agents s' 2) = 1 \<and>
      transfers (run open_deal_history (init funded)) s' = [(1, 50000000), (1, 10000000)]) \<and>
   (\<exists>s'. disputeDeal 1 0 (run unstaked_history (init funded)) = Inr s' \<and>
      status (deals s' ! 0) = Disputed \<and>
      transfers (run unstaked_history (init funded)) s' = [(1, 50000000)] \<and>
      staked (agents s' 2) = 0 \<and>
      dealsFailed (agents s' 2) = 1) \<and>
   UINT_MAX < staked (agents (run whale_history (init rich)) 2) * SLASH_PERCENT \<and>
   disputeDeal 1 0 (run whale_history (init rich)) = Inl Panic \<and>
   step 5 (DisputeDeal 1 0) (run whale_history (init rich)) = run whale_history (init rich)"
proof -
  let ?s = "run open_deal_history (init funded)"
  let ?u = "run unstaked_history (init funded)"
  have i: "inv ?s" "inv ?u"
    by (rule inv_run [OF inv_init])+
  have l: "length (deals ?s) \<le> UINT_MAX" "length (deals ?u) \<le> UINT_MAX"
    by (simp_all add: open_deal_state unstaked_state small_length)
  have n: "0 < length (deals ?s)" "0 < length (deals ?u)"
    by (simp_all add: open_deal_state unstaked_state)
  have big: "(1000000000::nat) \<le> UINT_MAX"
    by (simp add: UINT_MAX_def)
  from disputeDeal_effect [OF i(1) l(1) n(1) open_deal_state(2), of 3]
  have a: "disputeDeal 3 0 ?s = Inl NotAParty"
    by (simp add: open_deal_state)
  from disputeDeal_effect [OF i(1) l(1) n(1) open_deal_state(2), of 1] big
  obtain s' where s': "disputeDeal 1 0 ?s = Inr s'" "status (deals s' ! 0) = Disputed"
    "held s' + 60000000 = held ?s"
    "\<forall>a. balanceOf s' a = balanceOf ?s a
          + (if a = creator (deals ?s ! 0) then amount (deals ?s ! 0) else 0)
          + (if a = 1 then slashAmount ?s (slashTarget 1 (deals ?s ! 0)) else 0)"
    "staked (agents s' 2) + 10000000 = 100000000" "dealsFailed (agents s' 2) = 1"
    "transfers ?s s' = [(1, 50000000), (1, 10000000)]"
    by (auto simp: open_deal_state slashTarget_def slashAmount_def SLASH_PERCENT_def add.assoc)
  from s'(4) have "balanceOf s' 1 = balanceOf ?s 1 + 60000000"
    by (simp add: open_deal_state slashTarget_def slashAmount_def SLASH_PERCENT_def)
  with s'(1,2,3,5,6,7)
  have b: "\<exists>s'. disputeDeal 1 0 ?s = Inr s' \<and>
      status (deals s' ! 0) = Disputed \<and>
      held s' + 60000000 = held ?s \<and>
      balanceOf s' 1 = balanceOf ?s 1 + 60000000 \<and>
      staked (agents s' 2) + 10000000 = 100000000 \<and>
      dealsFailed (agents s' 2) = 1 \<and>
      transfers ?s s' = [(1, 50000000), (1, 10000000)]"
    by blast
  from disputeDeal_effect [OF i(2) l(2) n(2) unstaked_state(2), of 1]
  have c: "\<exists>s'. disputeDeal 1 0 ?u = Inr s' \<and>
      status (deals s' ! 0) = Disputed \<and>
      transfers ?u s' = [(1, 50000000)] \<and>
      staked (agents s' 2) = 0 \<and>
      dealsFailed (agents s' 2) = 1"
    by (auto simp: unstaked_state slashTarget_def slashAmount_def SLASH_PERCENT_def)
  let ?w = "run whale_history (init rich)"
  have iw: "inv ?w"
    by (rule inv_run [OF inv_init])
  have lw: "length (deals ?w) \<le> UINT_MAX" and nw: "0 < length (deals ?w)"
    by (simp_all add: whale_state small_length)
  have ow: "UINT_MAX < staked (agents ?w 2) * SLASH_PERCENT"
    by (simp add: whale_state SLASH_PERCENT_def UINT_MAX_def)
  from disputeDeal_effect [OF iw lw nw whale_state(2), of 1 5] ow
  have d: "disputeDeal 1 0 ?w = Inl Panic \<and> step 5 (DisputeDeal 1 0) ?w = ?w"
    by (simp add: whale_state slashTarget_def)
  from a b c d ow show ?thesis
    by blast
qed


text \<open>
  C3 as stated fails when the other party's stake is large. On a token with a supply of
  \<open>2^255 + 10^10\<close> base units, Bob stakes \<open>2^255\<close>; then
  \<open>agents[slashTarget].staked * SLASH_PERCENT\<close> overflows and Alice's dispute of their
  \<open>Active\<close> deal aborts.
\<close>

theorem disputeDeal_overflow_counterexample:
  "status (deals (run whale_history (init rich)) ! 0) = Active \<and>
   creator (deals (run whale_history (init rich)) ! 0) = 1 \<and>
   counterparty (deals (run whale_history (init rich)) ! 0) = 2 \<and>
   staked (agents (run whale_history (init rich)) 2) = 2 ^ 255 \<and>
   disputeDeal 1 0 (run whale_history (init rich)) = Inl Panic"
  by (simp add: whale_history_def init_def rich_def no_agent_def op_defs)


text \<open>
  C10. On an \<open>Active\<close> deal, when a party disputes and the other party's stake is
  positive but below 10 base units, the slash is 0: the call returns, the deal is
  \<open>Disputed\<close>, the only token transfer is the escrow's return to the creator (the
  caller receives nothing for the slash), the only event is \<open>DealDisputed\<close> (no
  \<open>Slashed\<close>), the stake is unchanged and \<open>dealsFailed\<close> of the other party rises
  by 1. The state is one the invariant holds in, as every reachable state is.
\<close>

theorem disputeDeal_dust:
  fixes s :: State and i :: nat and sender :: address
  defines "d \<equiv> deals s ! i"
  defines "t \<equiv> slashTarget sender (deals s ! i)"
  assumes "inv s" and "length (deals s) \<le> UINT_MAX" and "i < length (deals s)"
    and "status (deals s ! i) = Active"
    and "sender = creator (deals s ! i) \<or> sender = counterparty (deals s ! i)"
    and "0 < staked (agents s (slashTarget sender (deals s ! i)))"
    and "staked (agents s (slashTarget sender (deals s ! i))) < 10"
  shows "slashAmount s t = 0 \<and>
    (\<exists>s'. disputeDeal sender i s = Inr s' \<and>
       status (deals s' ! i) = Disputed \<and>
       transfers s s' = [(creator d, amount d)] \<and>
       balanceOf s' sender = balanceOf s sender + (if sender = creator d then amount d else 0) \<and>
       events s' = events s @ [DealDisputed i sender] \<and>
       staked (agents s' t) = staked (agents s t) \<and>
       dealsFailed (agents s' t) = dealsFailed (agents s t) + 1)"
proof -
  have z: "slashAmount s (slashTarget sender (deals s ! i)) = 0"
    using assms(9) by (simp add: slashAmount_tenth)
  have "staked (agents s (slashTarget sender (deals s ! i))) * SLASH_PERCENT \<le> 100"
    using assms(9) by (simp add: SLASH_PERCENT_def)
  moreover have "(100::nat) \<le> UINT_MAX"
    by (simp add: UINT_MAX_def)
  ultimately have o: "staked (agents s (slashTarget sender (deals s ! i))) * SLASH_PERCENT \<le> UINT_MAX"
    by linarith
  from disputeDeal_party [OF assms(3,4,5,6,7) o]
  obtain s' where s': "disputeDeal sender i s = Inr s'"
    "deals s' = (deals s)[i := d\<lparr>status := Disputed\<rparr>]"
    "agents s' = (agents s)(t := (agents s t)\<lparr>staked := staked (agents s t),
         dealsFailed := dealsFailed (agents s t) + 1\<rparr>)"
    "\<forall>a. balanceOf s' a = balanceOf s a + (if a = creator d then amount d else 0)"
    "events s' = events s @ [DealDisputed i sender]"
    "transfers s s' = [(creator d, amount d)]"
    unfolding d_def t_def z by auto
  have "status (deals s' ! i) = Disputed"
    using assms(5) by (simp add: s'(2))
  moreover have "balanceOf s' sender = balanceOf s sender + (if sender = creator d then amount d else 0)"
    using s'(4) by simp
  moreover have "staked (agents s' t) = staked (agents s t)"
    and "dealsFailed (agents s' t) = dealsFailed (agents s t) + 1"
    by (simp_all add: s'(3))
  ultimately show ?thesis
    using z s'(1,5,6) unfolding t_def by blast
qed


text \<open>Bob has 5 base units staked when Alice disputes.\<close>

theorem disputeDeal_dust_witness:
  "staked (agents (run dust_history (init funded)) 2) = 5 \<and>
   slashAmount (run dust_history (init funded)) 2 = 0 \<and>
   (\<exists>s'. disputeDeal 1 0 (run dust_history (init funded)) = Inr s' \<and>
      status (deals s' ! 0) = Disputed \<and>
      transfers (run dust_history (init funded)) s' = [(1, 50000000)] \<and>
      balanceOf s' 1 = balanceOf (run dust_history (init funded)) 1 + 50000000 \<and>
      events s' = events (run dust_history (init funded)) @ [DealDisputed 0 1] \<and>
      staked (agents s' 2) = 5 \<and>
      dealsFailed (agents s' 2) = 1)"
proof -
  let ?s = "run dust_history (init funded)"
  have i: "inv ?s"
    by (rule inv_run [OF inv_init])
  have l: "length (deals ?s) \<le> UINT_MAX" and n: "0 < length (deals ?s)"
    by (simp_all add: dust_state small_length)
  have p: "1 = creator (deals ?s ! 0) \<or> 1 = counterparty (deals ?s ! 0)"
    and lo: "0 < staked (agents ?s (slashTarget 1 (deals ?s ! 0)))"
    and hi: "staked (agents ?s (slashTarget 1 (deals ?s ! 0))) < 10"
    by (simp_all add: dust_state slashTarget_def)
  from disputeDeal_dust [OF i l n dust_state(2) p lo hi] show ?thesis
    by (simp add: dust_state slashTarget_def)
qed


subsection \<open>Expiry\<close>

text \<open>
  C8. On an \<open>Active\<close> deal, whoever calls: \<open>cancelExpiredDeal\<close> aborts with "Deal not
  expired" while \<open>now\<close> is before \<open>expiresAt\<close>; from \<open>expiresAt\<close> on it returns,
  the deal is \<open>Expired\<close> (no other field of it changes), the full amount has gone from
  the contract to the creator in one transfer, and the agent table is unchanged: nobody's
  \<open>dealsCompleted\<close>, \<open>dealsFailed\<close>, \<open>totalVolume\<close> or \<open>staked\<close> moves. The
  state satisfies conservation, as every reachable state does, so the contract holds the
  escrow.
\<close>

theorem cancelExpiredDeal_effect:
  fixes s :: State and i :: nat
  defines "d \<equiv> deals s ! i"
  assumes "conserved s" and "i < length (deals s)" and "status (deals s ! i) = Active"
  shows
   "(now < expiresAt d \<longrightarrow> cancelExpiredDeal now sender i s = Inl DealNotExpired) \<and>
    (expiresAt d \<le> now \<longrightarrow>
       (\<exists>s'. cancelExpiredDeal now sender i s = Inr s' \<and>
          deals s' = (deals s)[i := d\<lparr>status := Expired\<rparr>] \<and>
          status (deals s' ! i) = Expired \<and>
          held s' + amount d = held s \<and>
          balanceOf s' = (balanceOf s)(creator d := balanceOf s (creator d) + amount d) \<and>
          transfers s s' = [(creator d, amount d)] \<and>
          agents s' = agents s))"
proof (intro conjI impI)
  assume "now < expiresAt d"
  then show "cancelExpiredDeal now sender i s = Inl DealNotExpired"
    using assms(3,4) by (simp add: cancelExpiredDeal_def d_def)
next
  assume e: "expiresAt d \<le> now"
  have funds: "amount d \<le> held s"
    using escrow_covered [OF assms(2,3,4)] by (simp add: d_def)
  show "\<exists>s'. cancelExpiredDeal now sender i s = Inr s' \<and>
          deals s' = (deals s)[i := d\<lparr>status := Expired\<rparr>] \<and>
          status (deals s' ! i) = Expired \<and>
          held s' + amount d = held s \<and>
          balanceOf s' = (balanceOf s)(creator d := balanceOf s (creator d) + amount d) \<and>
          transfers s s' = [(creator d, amount d)] \<and>
          agents s' = agents s"
    using e funds assms(3,4) unfolding d_def
    by (simp add: cancelExpiredDeal_def safeTransfer_def set_deal_def emit_def Let_def
        transfers_def issued_def)
qed

text \<open>Scenario 4 of the spec: the deal opened at time 5 with the default expiry cannot be
  cancelled at 604804 and is cancelled by a stranger (account 3) at 604806.\<close>

theorem cancelExpiredDeal_effect_witness:
  "cancelExpiredDeal 604804 3 0 (run open_deal_history (init funded)) = Inl DealNotExpired \<and>
   (\<exists>s'. cancelExpiredDeal 604806 3 0 (run open_deal_history (init funded)) = Inr s' \<and>
      status (deals s' ! 0) = Expired \<and>
      held s' + 50000000 = held (run open_deal_history (init funded)) \<and>
      balanceOf s' 1 = balanceOf (run open_deal_history (init funded)) 1 + 50000000 \<and>
      transfers (run open_deal_history (init funded)) s' = [(1, 50000000)] \<and>
      agents s' = agents (run open_deal_history (init funded)))"
proof -
  let ?s = "run open_deal_history (init funded)"
  have "inv ?s"
    by (rule inv_run [OF inv_init])
  then have c: "conserved ?s"
    by (simp add: inv_def)
  have n: "0 < length (deals ?s)"
    by (simp add: open_deal_state)
  from cancelExpiredDeal_effect [OF c n open_deal_state(2), of 604804 3]
  have a: "cancelExpiredDeal 604804 3 0 ?s = Inl DealNotExpired"
    by (simp add: open_deal_state)
  from cancelExpiredDeal_effect [OF c n open_deal_state(2), of 604806 3]
  have b: "\<exists>s'. cancelExpiredDeal 604806 3 0 ?s = Inr s' \<and>
      status (deals s' ! 0) = Expired \<and>
      held s' + 50000000 = held ?s \<and>
      balanceOf s' 1 = balanceOf ?s 1 + 50000000 \<and>
      transfers ?s s' = [(1, 50000000)] \<and>
      agents s' = agents ?s"
    by (auto simp: open_deal_state)
  from a b show ?thesis
    by blast
qed

subsection \<open>Failed preconditions\<close>

lemma step_Inl: "exec now op s = Inl e \<Longrightarrow> step now op s = s"
  by (simp add: step_def)

lemma violates_named: "violates now op s e \<Longrightarrow> named e"
  by (cases op) (auto simp: named_def)

lemma reported_RegisterAgent:
  assumes "violates now (RegisterAgent a nm) s e0"
  shows "\<exists>e. registerAgent now a nm s = Inl e \<and> violates now (RegisterAgent a nm) s e"
  using assms by (auto simp: registerAgent_def)

lemma reported_Stake:
  assumes "violates now (Stake a v) s e0"
  shows "\<exists>e. stake a v s = Inl e \<and> violates now (Stake a v) s e"
  using assms by (auto simp: stake_def)

lemma reported_RequestUnstake:
  assumes "violates now (RequestUnstake a) s e0"
  shows "\<exists>e. requestUnstake now a s = Inl e \<and> violates now (RequestUnstake a) s e"
  using assms by (auto simp: requestUnstake_def)

lemma reported_Unstake:
  assumes "violates now (Unstake a v) s e0"
    and "unstakeRequestedAt s a + UNSTAKE_COOLDOWN \<le> UINT_MAX"
  shows "\<exists>e. unstake now a v s = Inl e \<and> violates now (Unstake a v) s e"
  using assms by (auto simp: unstake_def checked_add_def)

lemma reported_CreateDeal:
  assumes "violates now (CreateDeal a cp v descr dur) s e0"
  shows "\<exists>e. createDeal now a cp v descr dur s = Inl e \<and> violates now (CreateDeal a cp v descr dur) s e"
  using assms by (auto simp: createDeal_def)

lemma reported_ConfirmDeal:
  assumes "violates now (ConfirmDeal a i) s e0"
  shows "\<exists>e. confirmDeal now a i s = Inl e \<and> violates now (ConfirmDeal a i) s e"
  using assms by (auto simp: confirmDeal_def)

lemma reported_DisputeDeal:
  assumes "violates now (DisputeDeal a i) s e0"
  shows "\<exists>e. disputeDeal a i s = Inl e \<and> violates now (DisputeDeal a i) s e"
  using assms by (auto simp: disputeDeal_def)

lemma reported_CancelExpiredDeal:
  assumes "violates now (CancelExpiredDeal a i) s e0"
  shows "\<exists>e. cancelExpiredDeal now a i s = Inl e \<and> violates now (CancelExpiredDeal a i) s e"
  using assms by (auto simp: cancelExpiredDeal_def)


lemma unstake_requests:
  assumes "unstake now sender v s = Inr s'"
  shows "unstakeRequestedAt s' a = unstakeRequestedAt s a \<or> unstakeRequestedAt s' a = 0"
  using assms
  by (auto simp: unstake_def safeTransfer_def checked_add_def checked_sub_def set_agent_def
      emit_def Let_def and_then_eq_Inr split: if_splits)

lemma completeDeal_requests:
  assumes "completeDeal now i s = Inr s'"
  shows "unstakeRequestedAt s' = unstakeRequestedAt s"
  using assms
  by (auto simp: completeDeal_def safeTransfer_def checked_add_def set_agent_def set_deal_def
      emit_def Let_def and_then_eq_Inr split: if_splits)

lemma confirmDeal_requests:
  assumes "confirmDeal now sender i s = Inr s'"
  shows "unstakeRequestedAt s' = unstakeRequestedAt s"
proof -
  let ?d1 = "if sender = creator (deals s ! i) then (deals s ! i)\<lparr>creatorConfirmed := True\<rparr>
             else (deals s ! i)\<lparr>counterpartyConfirmed := True\<rparr>"
  let ?s1 = "s\<lparr>deals := (deals s)[i := ?d1]\<rparr>"
  note r = confirmDeal_Inr(4) [OF assms]
  show ?thesis
  proof (cases "creatorConfirmed ?d1 \<and> counterpartyConfirmed ?d1")
    case True
    with r have "completeDeal now i ?s1 = Inr s'" by simp
    from completeDeal_requests [OF this] show ?thesis by simp
  next
    case False
    with r have "s' = ?s1" by simp
    then show ?thesis by simp
  qed
qed

lemma exec_requests:
  assumes "exec now op s = Inr s'"
  shows "unstakeRequestedAt s' a = unstakeRequestedAt s a \<or> unstakeRequestedAt s' a = 0 \<or>
         unstakeRequestedAt s' a = now"
proof (cases op)
  case (RegisterAgent b nm)
  with assms show ?thesis by (auto dest!: registerAgent_Inr(1))
next
  case (Stake b v)
  with assms show ?thesis by (auto dest!: stake_Inr(1))
next
  case (RequestUnstake b)
  with assms show ?thesis by (auto dest!: requestUnstake_Inr)
next
  case (Unstake b v)
  with assms unstake_requests [of now b v s s' a] show ?thesis by auto
next
  case (CreateDeal b cp v descr dur)
  with assms obtain r where "createDeal now b cp v descr dur s = Inr (fst r, s')"
    by (auto simp: and_then_eq_Inr)
  from createDeal_Inr(10) [OF this] show ?thesis by simp
next
  case (ConfirmDeal b j)
  with assms confirmDeal_requests [of now b j s s'] show ?thesis by simp
next
  case (DisputeDeal b j)
  with assms disputeDeal_Inr(11) [of b j s s'] show ?thesis by simp
next
  case (CancelExpiredDeal b j)
  with assms show ?thesis by (auto dest!: cancelExpiredDeal_Inr(1))
qed

text \<open>Request times are block timestamps of earlier transactions: while those stay a
  cooldown below \<open>2^256\<close>, so does every stored request time.\<close>

lemma step_timely:
  assumes "\<And>a. unstakeRequestedAt s a + UNSTAKE_COOLDOWN \<le> UINT_MAX"
    and "now + UNSTAKE_COOLDOWN \<le> UINT_MAX"
  shows "unstakeRequestedAt (step now op s) a + UNSTAKE_COOLDOWN \<le> UINT_MAX"
proof (cases "exec now op s")
  case (Inl e)
  then show ?thesis using assms(1) by (simp add: step_def)
next
  case (Inr s')
  from exec_requests [OF this, of a] assms(1) [of a] assms(2) show ?thesis
    using Inr by (auto simp: step_def)
qed

lemma run_timely:
  assumes "\<And>a. unstakeRequestedAt s a + UNSTAKE_COOLDOWN \<le> UINT_MAX"
    and "\<forall>tx \<in> set txs. fst tx + UNSTAKE_COOLDOWN \<le> UINT_MAX"
  shows "unstakeRequestedAt (run txs s) a + UNSTAKE_COOLDOWN \<le> UINT_MAX"
  using assms
proof (induction txs arbitrary: s a)
  case Nil
  then show ?case by simp
next
  case (Cons tx txs)
  have "unstakeRequestedAt (step (fst tx) (snd tx) s) b + UNSTAKE_COOLDOWN \<le> UINT_MAX" for b
    using Cons.prems by (intro step_timely) simp_all
  then show ?case
    using Cons.prems(2) by (simp add: Cons.IH)
qed

lemma reachable_timely:
  assumes "\<forall>tx \<in> set txs. fst tx + UNSTAKE_COOLDOWN \<le> UINT_MAX"
  shows "timely op (run txs (init bal))"
proof (cases op)
  case (Unstake a v)
  have "unstakeRequestedAt (run txs (init bal)) a + UNSTAKE_COOLDOWN \<le> UINT_MAX"
    using assms by (intro run_timely) (simp_all add: init_def UNSTAKE_COOLDOWN_def UINT_MAX_def)
  then show ?thesis
    by (simp add: Unstake)
qed simp_all


lemma violation_reported:
  assumes "violates now op s e0" and "timely op s"
  shows "\<exists>e. exec now op s = Inl e \<and> violates now op s e \<and> named e \<and> step now op s = s"
proof -
  have "\<exists>e. exec now op s = Inl e \<and> violates now op s e"
  proof (cases op)
    case (RegisterAgent a nm)
    with assms(1) reported_RegisterAgent [of now a nm s e0] show ?thesis by simp
  next
    case (Stake a v)
    with assms(1) reported_Stake [of now a v s e0] show ?thesis by simp
  next
    case (RequestUnstake a)
    with assms(1) reported_RequestUnstake [of now a s e0] show ?thesis by simp
  next
    case (Unstake a v)
    with assms reported_Unstake [of now a v s e0] show ?thesis by simp
  next
    case (CreateDeal a cp v descr dur)
    with assms(1) reported_CreateDeal [of now a cp v descr dur s e0] show ?thesis by auto
  next
    case (ConfirmDeal a i)
    with assms(1) reported_ConfirmDeal [of now a i s e0] show ?thesis by simp
  next
    case (DisputeDeal a i)
    with assms(1) reported_DisputeDeal [of now a i s e0] show ?thesis by simp
  next
    case (CancelExpiredDeal a i)
    with assms(1) reported_CancelExpiredDeal [of now a i s e0] show ?thesis by simp
  qed
  then obtain e where e: "exec now op s = Inl e" "violates now op s e"
    by blast
  with violates_named [OF e(2)] step_Inl [OF e(1)] show ?thesis
    by blast
qed


lemma unstake_untimely:
  assumes "UINT_MAX < unstakeRequestedAt s a + UNSTAKE_COOLDOWN"
  shows "exists (agents s a) \<and> v \<le> staked (agents s a) \<longrightarrow> unstake now a v s = Inl Panic"
    and "\<not> exists (agents s a) \<longrightarrow> unstake now a v s = Inl NotRegistered"
    and "exists (agents s a) \<and> staked (agents s a) < v \<longrightarrow> unstake now a v s = Inl InsufficientStake"
proof -
  have "0 < unstakeRequestedAt s a"
    using assms by (cases "unstakeRequestedAt s a") (simp_all add: UNSTAKE_COOLDOWN_def UINT_MAX_def)
  then show "exists (agents s a) \<and> v \<le> staked (agents s a) \<longrightarrow> unstake now a v s = Inl Panic"
    using assms by (simp add: unstake_def checked_add_def)
  show "\<not> exists (agents s a) \<longrightarrow> unstake now a v s = Inl NotRegistered"
    by (simp add: unstake_def)
  show "exists (agents s a) \<and> staked (agents s a) < v \<longrightarrow> unstake now a v s = Inl InsufficientStake"
    by (simp add: unstake_def)
qed

lemma late_request_state:
  "exists (agents (run late_request_history (init funded)) 1)"
  "staked (agents (run late_request_history (init funded)) 1) = 100000000"
  "unstakeRequestedAt (run late_request_history (init funded)) 1 = 2 ^ 256 - 1"
  by (simp_all add: late_request_history_def init_def funded_def no_agent_def op_defs)

text \<open>
  C5 (as amended). Whenever a precondition of an operation fails, the call aborts, the
  whole state (agents, deals, balances, request times, events) is as before, and the
  condition reported is a named one whose own precondition fails (one of the fourteen,
  never \<open>Panic\<close> or a token error) --- except in \<open>unstake\<close> when the stored request
  time plus the cooldown exceeds \<open>2^256 - 1\<close> (\<open>timely\<close> fails): then a registered
  caller asking for no more than the stake gets an arithmetic panic, with the state
  unchanged, and any other caller gets \<open>NotRegistered\<close> or \<open>InsufficientStake\<close>.
  Stored request times are \<open>timely\<close> in every state reached with block timestamps at
  least one cooldown below \<open>2^256\<close> (\<open>reachable_timely\<close>).
\<close>

theorem failed_precondition_reported:
  "(violates now op s e0 \<and> timely op s \<longrightarrow>
      (\<exists>e. exec now op s = Inl e \<and> violates now op s e \<and> named e \<and> step now op s = s)) \<and>
   (\<not> timely (Unstake a v) s \<and> exists (agents s a) \<and> v \<le> staked (agents s a) \<longrightarrow>
      exec now (Unstake a v) s = Inl Panic \<and> step now (Unstake a v) s = s) \<and>
   (\<not> timely (Unstake a v) s \<and> \<not> (exists (agents s a) \<and> v \<le> staked (agents s a)) \<longrightarrow>
      (\<exists>e. exec now (Unstake a v) s = Inl e \<and> violates now (Unstake a v) s e \<and> named e \<and>
           (e = NotRegistered \<or> e = InsufficientStake) \<and> step now (Unstake a v) s = s))"
proof (intro conjI impI)
  assume "violates now op s e0 \<and> timely op s"
  then show "\<exists>e. exec now op s = Inl e \<and> violates now op s e \<and> named e \<and> step now op s = s"
    using violation_reported [of now op s e0] by simp
next
  assume h: "\<not> timely (Unstake a v) s \<and> exists (agents s a) \<and> v \<le> staked (agents s a)"
  then have "UINT_MAX < unstakeRequestedAt s a + UNSTAKE_COOLDOWN"
    by simp
  from unstake_untimely(1) [OF this, where v = v and now = now] h
  show "exec now (Unstake a v) s = Inl Panic"
    by simp
  then show "step now (Unstake a v) s = s"
    by (rule step_Inl)
next
  assume h: "\<not> timely (Unstake a v) s \<and> \<not> (exists (agents s a) \<and> v \<le> staked (agents s a))"
  then have late: "UINT_MAX < unstakeRequestedAt s a + UNSTAKE_COOLDOWN"
    by simp
  show "\<exists>e. exec now (Unstake a v) s = Inl e \<and> violates now (Unstake a v) s e \<and> named e \<and>
           (e = NotRegistered \<or> e = InsufficientStake) \<and> step now (Unstake a v) s = s"
  proof (cases "exists (agents s a)")
    case False
    with unstake_untimely(2) [OF late, where v = v and now = now]
    have e: "exec now (Unstake a v) s = Inl NotRegistered"
      by simp
    with False step_Inl [OF e] show ?thesis
      by (simp add: named_def)
  next
    case True
    with h have less: "staked (agents s a) < v"
      by simp
    with True unstake_untimely(3) [OF late, where v = v and now = now]
    have e: "exec now (Unstake a v) s = Inl InsufficientStake"
      by simp
    with less step_Inl [OF e] show ?thesis
      by (simp add: named_def)
  qed
qed

text \<open>Scenario 5 of the spec: one second after the request, \<open>unstake\<close> aborts with
  "Cooldown not elapsed". After a request at time \<open>2^256 - 1\<close>, \<open>unstake\<close> of half the
  stake aborts with a panic and \<open>unstake\<close> of twice the stake with "Insufficient
  stake".\<close>

theorem failed_precondition_reported_witness:
  "violates 5 (Unstake 1 50000000) (run cooldown_history (init funded)) CooldownNotElapsed \<and>
   timely (Unstake 1 50000000) (run cooldown_history (init funded)) \<and>
   exec 5 (Unstake 1 50000000) (run cooldown_history (init funded)) = Inl CooldownNotElapsed \<and>
   named CooldownNotElapsed \<and>
   step 5 (Unstake 1 50000000) (run cooldown_history (init funded))
     = run cooldown_history (init funded) \<and>
   \<not> timely (Unstake 1 50000000) (run late_request_history (init funded)) \<and>
   exec (2 ^ 256 - 1) (Unstake 1 50000000) (run late_request_history (init funded)) = Inl Panic \<and>
   step (2 ^ 256 - 1) (Unstake 1 50000000) (run late_request_history (init funded))
     = run late_request_history (init funded) \<and>
   \<not> timely (Unstake 1 200000000) (run late_request_history (init funded)) \<and>
   exec (2 ^ 256 - 1) (Unstake 1 200000000) (run late_request_history (init funded))
     = Inl InsufficientStake"
proof -
  let ?s = "run cooldown_history (init funded)"
  let ?l = "run late_request_history (init funded)"
  have f: "unstakeRequestedAt ?s 1 = 4" "exists (agents ?s 1)" "staked (agents ?s 1) = 100000000"
    by (simp_all add: cooldown_history_def init_def funded_def no_agent_def op_defs)
  have v: "violates 5 (Unstake 1 50000000) ?s CooldownNotElapsed"
    using f by (simp add: UNSTAKE_COOLDOWN_def)
  have t: "timely (Unstake 1 50000000) ?s"
    using f by (simp add: UNSTAKE_COOLDOWN_def UINT_MAX_def)
  have e: "exec 5 (Unstake 1 50000000) ?s = Inl CooldownNotElapsed"
    using f by (simp add: unstake_def checked_add_def UNSTAKE_COOLDOWN_def UINT_MAX_def)
  from failed_precondition_reported [of 5 "Unstake 1 50000000" ?s CooldownNotElapsed] e v t
  have a: "named CooldownNotElapsed \<and> step 5 (Unstake 1 50000000) ?s = ?s"
    by auto
  have n: "\<not> timely (Unstake 1 50000000) ?l" "\<not> timely (Unstake 1 200000000) ?l"
    using late_request_state by (simp_all add: UNSTAKE_COOLDOWN_def UINT_MAX_def)
  from failed_precondition_reported [where now = "2 ^ 256 - 1" and op = "Unstake 1 50000000"
      and s = ?l and ?e0.0 = CooldownNotElapsed and a = 1 and v = 50000000] n(1)
    late_request_state
  have b: "exec (2 ^ 256 - 1) (Unstake 1 50000000) ?l = Inl Panic \<and>
      step (2 ^ 256 - 1) (Unstake 1 50000000) ?l = ?l"
    by simp
  from failed_precondition_reported [where now = "2 ^ 256 - 1" and op = "Unstake 1 200000000"
      and s = ?l and ?e0.0 = InsufficientStake and a = 1 and v = 200000000] n(2)
    late_request_state
  have c: "exec (2 ^ 256 - 1) (Unstake 1 200000000) ?l = Inl InsufficientStake"
    by (auto simp: named_def)
  from v t e a n b c show ?thesis
    by blast
qed

text \<open>
  C5 as stated fails: after a request at block timestamp \<open>2^256 - 1\<close> the cooldown
  has not elapsed, every other precondition of \<open>unstake\<close> holds, and the call aborts
  with a panic, which is none of the named conditions:
  \<open>unstakeRequestedAt[msg.sender] + UNSTAKE_COOLDOWN\<close> overflows before the comparison.
\<close>

theorem unstake_panic_counterexample:
  "violates (2 ^ 256 - 1) (Unstake 1 50000000) (run late_request_history (init funded))
     CooldownNotElapsed \<and>
   exists (agents (run late_request_history (init funded)) 1) \<and>
   staked (agents (run late_request_history (init funded)) 1) = 100000000 \<and>
   unstakeRequestedAt (run late_request_history (init funded)) 1 = 2 ^ 256 - 1 \<and>
   exec (2 ^ 256 - 1) (Unstake 1 50000000) (run late_request_history (init funded)) = Inl Panic \<and>
   \<not> named Panic"
  using late_request_state
  by (simp add: unstake_def checked_add_def named_def UNSTAKE_COOLDOWN_def UINT_MAX_def)

subsection \<open>Bookkeeping and token calls\<close>

lemma completeDeal_calls:
  assumes "completeDeal now i s = Inr s'"
  shows "\<exists>c. calls s' = calls s @ [c] \<and> \<not> incoming c \<and> agents_seen c = agents s \<and>
           deals_seen c = (deals s)[i := (deals s ! i)\<lparr>status := Completed\<rparr>]"
  using assms
  by (auto simp: completeDeal_def safeTransfer_def checked_add_def set_agent_def set_deal_def
      emit_def Let_def and_then_eq_Inr split: if_splits)

lemma issued_append: "calls s' = calls s @ cs \<Longrightarrow> issued s s' = cs"
  by (simp add: issued_def)

lemma issued_same: "calls s' = calls s \<Longrightarrow> issued s s' = []"
  by (simp add: issued_def)


text \<open>
  C7 (as amended). Each token call an operation issues is recorded with the agent table
  and the deal array as they are when it is issued. In every call that returns: each
  transfer of \<open>stake\<close>, \<open>unstake\<close>, \<open>confirmDeal\<close>, \<open>disputeDeal\<close> and
  \<open>cancelExpiredDeal\<close> is issued when the deal array (deal status included) already has
  its final value; in \<open>unstake\<close> and \<open>cancelExpiredDeal\<close> the agent table (staked
  balances and counters) is final as well; in \<open>stake\<close> and in a completing
  \<open>confirmDeal\<close> (both \<open>nonReentrant\<close> in the source) the transfer is issued while the
  agent table is still the one from before the call, and the staked balance and the
  \<open>dealsCompleted\<close> and \<open>totalVolume\<close> counters are written after it.
\<close>

theorem bookkeeping_at_transfer:
  assumes "exec now op s = Inr s'"
  shows "\<forall>c \<in> set (issued s s').
     (case op of
        Stake a v \<Rightarrow> deals_seen c = deals s' \<and> agents_seen c = agents s
      | Unstake a v \<Rightarrow> deals_seen c = deals s' \<and> agents_seen c = agents s'
      | ConfirmDeal a i \<Rightarrow> deals_seen c = deals s' \<and> agents_seen c = agents s
      | DisputeDeal a i \<Rightarrow> deals_seen c = deals s'
      | CancelExpiredDeal a i \<Rightarrow> deals_seen c = deals s' \<and> agents_seen c = agents s'
      | _ \<Rightarrow> True)"
proof (cases op)
  case (Stake a v)
  with assms have "stake a v s = Inr s'" by simp
  from stake_Inr(1) [OF this] show ?thesis
    by (simp add: Stake issued_def)
next
  case (Unstake a v)
  with assms have "unstake now a v s = Inr s'" by simp
  from unstake_Inr(9) [OF this] show ?thesis
    by (simp add: Unstake issued_def)
next
  case (ConfirmDeal a i)
  with assms have c: "confirmDeal now a i s = Inr s'" by simp
  note r = confirmDeal_Inr [OF c]
  let ?d1 = "if a = creator (deals s ! i) then (deals s ! i)\<lparr>creatorConfirmed := True\<rparr>
             else (deals s ! i)\<lparr>counterpartyConfirmed := True\<rparr>"
  let ?s1 = "s\<lparr>deals := (deals s)[i := ?d1]\<rparr>"
  show ?thesis
  proof (cases "creatorConfirmed ?d1 \<and> counterpartyConfirmed ?d1")
    case True
    with r(4) have k: "completeDeal now i ?s1 = Inr s'" by simp
    have "deals s' = (deals ?s1)[i := (deals ?s1 ! i)\<lparr>status := Completed\<rparr>]"
      by (rule completeDeal_deals [OF k])
    moreover obtain c where "calls s' = calls ?s1 @ [c]" and "agents_seen c = agents ?s1"
      and "deals_seen c = (deals ?s1)[i := (deals ?s1 ! i)\<lparr>status := Completed\<rparr>]"
      using completeDeal_calls [OF k] by blast
    ultimately show ?thesis
      by (simp add: ConfirmDeal issued_def)
  next
    case False
    with r(4) have "s' = ?s1" by simp
    then show ?thesis
      by (simp add: ConfirmDeal issued_def)
  qed
next
  case (DisputeDeal a i)
  with assms have c: "disputeDeal a i s = Inr s'" by simp
  note r = disputeDeal_Inr [OF c]
  have "\<forall>c \<in> set (issued s s'). deals_seen c = (deals s)[i := (deals s ! i)\<lparr>status := Disputed\<rparr>]"
    using c
    by (auto simp: disputeDeal_def safeTransfer_def checked_add_def checked_mul_def checked_sub_def
      set_agent_def set_deal_def emit_def Let_def and_then_eq_Inr issued_def split: if_splits)
  then show ?thesis
    by (simp add: DisputeDeal r(7))
next
  case (CancelExpiredDeal a i)
  with assms have "cancelExpiredDeal now a i s = Inr s'" by simp
  from cancelExpiredDeal_Inr(1) [OF this] show ?thesis
    by (simp add: CancelExpiredDeal issued_def)
qed simp_all


text \<open>Bob's completing confirmation: the one transfer sees the final deal array and the
  agent table from before the call.\<close>

theorem bookkeeping_at_transfer_witness:
  "exec 8 (ConfirmDeal 2 0) (run half_confirmed_history (init funded))
     = Inr (run completed_history (init funded)) \<and>
   length (issued (run half_confirmed_history (init funded))
                  (run completed_history (init funded))) = 1 \<and>
   deals_seen (hd (issued (run half_confirmed_history (init funded))
                          (run completed_history (init funded))))
     = deals (run completed_history (init funded)) \<and>
   agents_seen (hd (issued (run half_confirmed_history (init funded))
                           (run completed_history (init funded))))
     = agents (run half_confirmed_history (init funded))"
proof -
  let ?s = "run half_confirmed_history (init funded)"
  let ?s' = "run completed_history (init funded)"
  have a: "exec 8 (ConfirmDeal 2 0) ?s = Inr ?s'"
    by (simp add: completed_history_def half_confirmed_history_def open_deal_history_def
        init_def funded_def no_agent_def op_defs)
  have n: "length (issued ?s ?s') = 1"
    by (simp add: completed_history_def half_confirmed_history_def open_deal_history_def
        init_def funded_def no_agent_def issued_def op_defs)
  then have "hd (issued ?s ?s') \<in> set (issued ?s ?s')"
    by (cases "issued ?s ?s'") simp_all
  with bookkeeping_at_transfer [OF a] a n show ?thesis
    by auto
qed

text \<open>
  C7 as stated fails: when Bob's confirmation completes the deal, the 50 units are sent to
  him while his \<open>dealsCompleted\<close> is still 0; the counter becomes 1 only after the
  transfer (\<open>_completeDeal\<close> updates the statistics after \<open>safeTransfer\<close>).
\<close>

theorem completion_counters_counterexample:
  "confirmDeal 8 2 0 (run half_confirmed_history (init funded))
     = Inr (run completed_history (init funded)) \<and>
   length (issued (run half_confirmed_history (init funded))
                  (run completed_history (init funded))) = 1 \<and>
   \<not> incoming (hd (issued (run half_confirmed_history (init funded))
                           (run completed_history (init funded)))) \<and>
   party (hd (issued (run half_confirmed_history (init funded))
                     (run completed_history (init funded)))) = 2 \<and>
   call_value (hd (issued (run half_confirmed_history (init funded))
                          (run completed_history (init funded)))) = 50000000 \<and>
   dealsCompleted (agents_seen (hd (issued (run half_confirmed_history (init funded))
                                           (run completed_history (init funded)))) 2) = 0 \<and>
   dealsCompleted (agents (run completed_history (init funded)) 2) = 1"
  by (simp add: completed_history_def half_confirmed_history_def open_deal_history_def
      init_def funded_def no_agent_def issued_def op_defs)

subsection \<open>A long history\<close>

lemma run_append: "run (xs @ ys) s = run ys (run xs s)"
  by (induction xs arbitrary: s) simp_all

lemma expiry_fits: "5 + DEFAULT_EXPIRY \<le> UINT_MAX"
  by (simp add: DEFAULT_EXPIRY_def UINT_MAX_def)

lemma deal_round_step:
  assumes "length (deals s) = n" and "exists (agents s 1)" and "exists (agents s 2)"
    and "dealsCompleted (agents s 1) = n" and "dealsFailed (agents s 1) = 0"
    and "dealsCompleted (agents s 2) = n"
    and "totalVolume (agents s 1) = n" and "totalVolume (agents s 2) = n"
    and "balanceOf s 1 + n = 2 ^ 250" and "n < 2 ^ 250" and "held s = 0"
  shows "length (deals (run (deal_round n) s)) = Suc n \<and>
    exists (agents (run (deal_round n) s) 1) \<and> exists (agents (run (deal_round n) s) 2) \<and>
    dealsCompleted (agents (run (deal_round n) s) 1) = Suc n \<and>
    dealsFailed (agents (run (deal_round n) s) 1) = 0 \<and>
    dealsCompleted (agents (run (deal_round n) s) 2) = Suc n \<and>
    totalVolume (agents (run (deal_round n) s) 1) = Suc n \<and>
    totalVolume (agents (run (deal_round n) s) 2) = Suc n \<and>
    balanceOf (run (deal_round n) s) 1 + Suc n = 2 ^ 250 \<and>
    held (run (deal_round n) s) = 0"
proof -
  have fits: "n + 1 \<le> UINT_MAX"
    using assms(10) by (simp add: UINT_MAX_def)
  have funds: "1 \<le> balanceOf s 1"
    using assms(9,10) by linarith
  show ?thesis
    using assms fits funds expiry_fits
    by (simp add: deal_round_def registerAgent_def stake_def createDeal_def
        confirmDeal_def completeDeal_def safeTransfer_def safeTransferFrom_def checked_add_def
        set_agent_def set_deal_def emit_def step_def Let_def nth_append)
qed

lemma seasoned_round:
  assumes "seasoned n s" and "n < 2 ^ 250"
  shows "seasoned (Suc n) (run (deal_round n) s)"
proof -
  from assms(1) have f: "length (deals s) = n" "exists (agents s 1)" "exists (agents s 2)"
    "dealsCompleted (agents s 1) = n" "dealsFailed (agents s 1) = 0"
    "dealsCompleted (agents s 2) = n"
    "totalVolume (agents s 1) = n" "totalVolume (agents s 2) = n"
    "balanceOf s 1 + n = 2 ^ 250" "held s = 0"
    by (simp_all add: seasoned_def)
  from deal_round_step [OF f(1-9) assms(2) f(10)] show ?thesis
    unfolding seasoned_def .
qed

lemma seasoned_start:
  "seasoned 0 (run [(1, RegisterAgent 1 ''Alice''), (2, RegisterAgent 2 ''Bob'')] (init patron_ledger))"
  by (simp add: seasoned_def init_def patron_ledger_def no_agent_def registerAgent_def emit_def
      step_def)

lemma seasoned_rounds:
  assumes "seasoned 0 s" and "n \<le> 2 ^ 250"
  shows "seasoned n (run (deal_rounds n) s)"
  using assms(2)
proof (induction n)
  case 0
  then show ?case using assms(1) by simp
next
  case (Suc n)
  then have "seasoned n (run (deal_rounds n) s)" and "n < 2 ^ 250"
    by simp_all
  from seasoned_round [OF this] show ?case
    by (simp add: run_append)
qed

lemma veteran_state:
  "seasoned ((2 ^ 256 - 1) div 500 + 1) (run veteran_history (init patron_ledger))"
proof -
  have "((2::nat) ^ 256 - 1) div 500 + 1 \<le> 2 ^ 250"
    by simp
  from seasoned_rounds [OF seasoned_start this] show ?thesis
    by (simp add: veteran_history_def run_append)
qed


subsection \<open>Reputation score\<close>

lemma reputation_value:
  assumes "staked a \<le> UINT_MAX" and "totalVolume a \<le> UINT_MAX"
    and "dealsCompleted a + dealsFailed a \<le> UINT_MAX"
    and "dealsCompleted a * 500 \<le> UINT_MAX"
  shows "reputation a = Inr (if \<not> exists a then 0
     else if dealsCompleted a + dealsFailed a = 0 then min (staked a div 1000000 * 10) 200
     else dealsCompleted a * 500 div (dealsCompleted a + dealsFailed a)
        + min (totalVolume a div 100000000 * 30) 300 + min (staked a div 1000000 * 10) 200)"
proof -
  have k: "staked a div 1000000 * 10 \<le> UINT_MAX"
    using assms(1) by linarith
  have v: "totalVolume a div 100000000 * 30 \<le> UINT_MAX"
    using assms(2) by linarith
  have c: "dealsCompleted a * 500 div (dealsCompleted a + dealsFailed a) \<le> 500"
    if "dealsCompleted a + dealsFailed a > 0"
    using that by (intro div_le_factor) auto
  have big: "1000 \<le> UINT_MAX"
    by (simp add: UINT_MAX_def)
  show ?thesis
    using k v c big assms(3,4)
    by (auto simp: reputation_def checked_add_def checked_mul_def min_uint_def min_def Let_def)
qed

lemma reputation_new_agent:
  assumes "exists a" and "staked a \<le> UINT_MAX" and "dealsCompleted a + dealsFailed a = 0"
  shows "reputation a = Inr (min (staked a div 1000000 * 10) 200)"
proof -
  have "staked a div 1000000 * 10 \<le> UINT_MAX"
    using assms(2) by linarith
  then show ?thesis
    using assms(1,3)
    by (auto simp: reputation_def checked_add_def checked_mul_def min_uint_def min_def)
qed

lemma reputation_overflow:
  assumes "exists a"
    and "UINT_MAX < dealsCompleted a + dealsFailed a \<or> UINT_MAX < dealsCompleted a * 500"
  shows "reputation a = Inl Panic"
proof (cases "UINT_MAX < dealsCompleted a + dealsFailed a")
  case True
  then show ?thesis
    using assms(1) by (simp add: reputation_def checked_add_def)
next
  case False
  with assms(2) have m: "UINT_MAX < dealsCompleted a * 500"
    by simp
  then have "dealsCompleted a + dealsFailed a \<noteq> 0"
    by (cases "dealsCompleted a") simp_all
  with False m show ?thesis
    using assms(1) by (simp add: reputation_def checked_add_def checked_mul_def)
qed


text \<open>
  C4 (as amended). \<open>getReputation\<close> of an identity that is not registered is exactly 0.
  For a registered agent with \<open>dealsCompleted + dealsFailed = 0\<close> it is
  \<open>min (floor (staked / 1 unit) * 10) 200\<close>. For every agent record whose
  \<open>dealsCompleted + dealsFailed\<close> and \<open>dealsCompleted * 500\<close> do not exceed
  \<open>2^256 - 1\<close> it returns a score between 0 and 1000. For a registered agent for whom
  one of the two exceeds \<open>2^256 - 1\<close> the call aborts with an arithmetic panic. (The
  fields are \<open>uint256\<close> values, hence the bounds on \<open>staked\<close> and \<open>totalVolume\<close>.)
\<close>

theorem getReputation_score:
  "(\<not> exists (agents s a) \<longrightarrow> getReputation a s = Inr 0) \<and>
   (exists (agents s a) \<and> staked (agents s a) \<le> UINT_MAX \<and>
      dealsCompleted (agents s a) + dealsFailed (agents s a) = 0 \<longrightarrow>
      getReputation a s = Inr (min (staked (agents s a) div 1000000 * 10) 200)) \<and>
   (staked (agents s a) \<le> UINT_MAX \<and> totalVolume (agents s a) \<le> UINT_MAX \<and>
      dealsCompleted (agents s a) + dealsFailed (agents s a) \<le> UINT_MAX \<and>
      dealsCompleted (agents s a) * 500 \<le> UINT_MAX \<longrightarrow>
      (\<exists>r. getReputation a s = Inr r \<and> 0 \<le> r \<and> r \<le> 1000)) \<and>
   (exists (agents s a) \<and>
      (UINT_MAX < dealsCompleted (agents s a) + dealsFailed (agents s a) \<or>
       UINT_MAX < dealsCompleted (agents s a) * 500) \<longrightarrow>
      getReputation a s = Inl Panic)"
proof (intro conjI impI)
  assume "\<not> exists (agents s a)"
  then show "getReputation a s = Inr 0"
    by (simp add: getReputation_def reputation_def)
next
  assume "exists (agents s a) \<and> staked (agents s a) \<le> UINT_MAX \<and>
      dealsCompleted (agents s a) + dealsFailed (agents s a) = 0"
  then show "getReputation a s = Inr (min (staked (agents s a) div 1000000 * 10) 200)"
    unfolding getReputation_def by (intro reputation_new_agent) simp_all
next
  let ?a = "agents s a"
  assume h: "staked ?a \<le> UINT_MAX \<and> totalVolume ?a \<le> UINT_MAX \<and>
      dealsCompleted ?a + dealsFailed ?a \<le> UINT_MAX \<and> dealsCompleted ?a * 500 \<le> UINT_MAX"
  have c: "dealsCompleted ?a * 500 div (dealsCompleted ?a + dealsFailed ?a) \<le> 500"
    if "dealsCompleted ?a + dealsFailed ?a > 0"
    using that by (intro div_le_factor) auto
  have "reputation ?a = Inr (if \<not> exists ?a then 0
     else if dealsCompleted ?a + dealsFailed ?a = 0 then min (staked ?a div 1000000 * 10) 200
     else dealsCompleted ?a * 500 div (dealsCompleted ?a + dealsFailed ?a)
        + min (totalVolume ?a div 100000000 * 30) 300 + min (staked ?a div 1000000 * 10) 200)"
    using h by (intro reputation_value) simp_all
  moreover have "(if \<not> exists ?a then 0
     else if dealsCompleted ?a + dealsFailed ?a = 0 then min (staked ?a div 1000000 * 10) 200
     else dealsCompleted ?a * 500 div (dealsCompleted ?a + dealsFailed ?a)
        + min (totalVolume ?a div 100000000 * 30) 300 + min (staked ?a div 1000000 * 10) 200)
     \<le> 1000"
    using c by (auto simp: min_def)
  ultimately show "\<exists>r. getReputation a s = Inr r \<and> 0 \<le> r \<and> r \<le> 1000"
    by (simp add: getReputation_def)
next
  assume "exists (agents s a) \<and>
      (UINT_MAX < dealsCompleted (agents s a) + dealsFailed (agents s a) \<or>
       UINT_MAX < dealsCompleted (agents s a) * 500)"
  then show "getReputation a s = Inl Panic"
    unfolding getReputation_def by (intro reputation_overflow) simp_all
qed

text \<open>The four parts at states reached by operations: Charlie, whom nobody registered;
  Alice after staking 10 units (scenario 1 of the spec: score 100); Alice after the
  completed 50-unit deal with 100 units staked (500 for completion, 0 for volume, 200 for
  stake: score 700); and Alice after the rounds of \<open>veteran_history\<close>.\<close>

theorem getReputation_score_witness:
  "\<not> exists (agents (run staked_history (init funded)) 3) \<and>
   getReputation 3 (run staked_history (init funded)) = Inr 0 \<and>
   exists (agents (run staked_history (init funded)) 1) \<and>
   dealsCompleted (agents (run staked_history (init funded)) 1)
     + dealsFailed (agents (run staked_history (init funded)) 1) = 0 \<and>
   getReputation 1 (run staked_history (init funded)) = Inr 100 \<and>
   dealsCompleted (agents (run completed_history (init funded)) 1) = 1 \<and>
   getReputation 1 (run completed_history (init funded)) = Inr 700 \<and>
   (\<exists>r. getReputation 1 (run completed_history (init funded)) = Inr r \<and> 0 \<le> r \<and> r \<le> 1000) \<and>
   exists (agents (run veteran_history (init patron_ledger)) 1) \<and>
   UINT_MAX < dealsCompleted (agents (run veteran_history (init patron_ledger)) 1) * 500 \<and>
   getReputation 1 (run veteran_history (init patron_ledger)) = Inl Panic"
proof -
  let ?s = "run staked_history (init funded)"
  let ?c = "run completed_history (init funded)"
  let ?v = "run veteran_history (init patron_ledger)"
  have a: "\<not> exists (agents ?s 3)"
    by (simp add: staked_history_def init_def funded_def no_agent_def op_defs)
  have b: "exists (agents ?s 1)" "staked (agents ?s 1) = 10000000"
    "dealsCompleted (agents ?s 1) + dealsFailed (agents ?s 1) = 0"
    by (simp_all add: staked_history_def init_def funded_def no_agent_def op_defs)
  have c: "exists (agents ?c 1)" "staked (agents ?c 1) = 100000000"
    "totalVolume (agents ?c 1) = 50000000" "dealsCompleted (agents ?c 1) = 1"
    "dealsFailed (agents ?c 1) = 0"
    by (simp_all add: completed_history_def half_confirmed_history_def open_deal_history_def
        init_def funded_def no_agent_def op_defs)
  have c7: "getReputation 1 ?c = Inr 700"
    using c by (simp add: getReputation_def reputation_def checked_add_def checked_mul_def
        min_uint_def UINT_MAX_def)
  from veteran_state have v: "exists (agents ?v 1)"
    and vc: "dealsCompleted (agents ?v 1) = (2 ^ 256 - 1) div 500 + 1"
    by (simp_all add: seasoned_def)
  have vo: "UINT_MAX < dealsCompleted (agents ?v 1) * 500"
    unfolding vc by (simp add: UINT_MAX_def)
  have big: "(100000000::nat) \<le> UINT_MAX" "(500::nat) \<le> UINT_MAX" "(1::nat) \<le> UINT_MAX"
    by (simp_all add: UINT_MAX_def)
  from getReputation_score [of ?s 3] a have r1: "getReputation 3 ?s = Inr 0"
    by blast
  from getReputation_score [of ?s 1] b big have r2: "getReputation 1 ?s = Inr 100"
    by (simp add: UINT_MAX_def)
  from getReputation_score [of ?c 1] c big
  have r3: "\<exists>r. getReputation 1 ?c = Inr r \<and> 0 \<le> r \<and> r \<le> 1000"
    by simp
  from getReputation_score [of ?v 1] v vo have r4: "getReputation 1 ?v = Inl Panic"
    by blast
  from a b c(4) c7 v vo r1 r2 r3 r4 show ?thesis
    by blast
qed

text \<open>
  C4 as stated fails: after the rounds of \<open>veteran_history\<close> Alice is a registered agent
  whose \<open>dealsCompleted\<close> is \<open>floor ((2^256 - 1) / 500) + 1\<close>, so
  \<open>a.dealsCompleted * 500\<close> overflows and the view aborts instead of returning a score.
\<close>

theorem getReputation_overflow_counterexample:
  "getReputation 1 (run veteran_history (init patron_ledger)) = Inl Panic"
proof -
  let ?a = "agents (run veteran_history (init patron_ledger)) 1"
  from veteran_state have e: "exists ?a"
    and c: "dealsCompleted ?a = (2 ^ 256 - 1) div 500 + 1"
    by (simp_all add: seasoned_def)
  have "UINT_MAX < dealsCompleted ?a * 500"
    unfolding c by (simp add: UINT_MAX_def)
  with e show ?thesis
    unfolding getReputation_def by (intro reputation_overflow) simp_all
qed


end
